theory Spec2Isabelle
  imports
    Complex_Main
    "HOL-Library.Word"
    "HOL-Library.Char_ord"
    "HOL-Library.List_Lexorder"
    "HOL-Library.Multiset"
begin

section \<open>Data model\<close>

text \<open>
  The program (\<^verbatim>\<open>src/main.go\<close>) reads a file of lines \<^verbatim>\<open><key>;<value>\n\<close>, splits it
  into byte ranges, scans every range into a table of per-key statistics, merges the
  tables and prints them.

  A Go \<^verbatim>\<open>string\<close> is a sequence of bytes: it is a \<^typ>\<open>string\<close> here, a list of
  8-bit \<^typ>\<open>char\<close>s. Offsets into the file (\<^verbatim>\<open>int64\<close> in the source) are natural
  numbers: they stay between 0 and twice the length of the mapped file, far from the
  limits of \<^verbatim>\<open>int64\<close>. The bytes and the \<^verbatim>\<open>int32\<close> of \<^verbatim>\<open>parseTemp\<close> are machine
  words, so that their wrap-around is the source's.
\<close>

subsection \<open>Floating-point numbers\<close>

text \<open>
  A \<^verbatim>\<open>float64\<close> is an IEEE 754 double. \<open>F64 m e\<close> is the double of value \<open>m * 2 ^ e\<close>, kept
  in the one form where \<open>m\<close> is odd, or \<open>m = 0\<close> and \<open>e = 0\<close>, so that two doubles are equal
  exactly when their values are. Every operation computes its exact result on integers
  and rounds it once to 53 significant bits, ties to even, as the hardware does. Left out
  are the bounds of the exponent (overflow to infinity, subnormal numbers), the negative
  zero and NaN, none of which this program reaches: every parsed value and every sum is a
  multiple of \<open>2 ^ - 59\<close>, of magnitude far below \<open>2 ^ 1024\<close>, and the only division is
  that of a sum by a count of at least 1.
\<close>

datatype float64 = F64 int int

function f64_norm :: "int \<Rightarrow> int \<Rightarrow> float64" where
  "f64_norm m e =
    (if m = 0 then F64 0 0
     else if even m then f64_norm (m div 2) (e + 1)
     else F64 m e)"
  by pat_completeness auto
termination
  by (relation "measure (\<lambda>(m, e). nat \<bar>m\<bar>)") auto

declare f64_norm.simps [simp del]

function bit_length :: "int \<Rightarrow> nat" where
  \<comment> \<open>the number of bits of a positive integer\<close>
  "bit_length n = (if n \<le> 0 then 0 else Suc (bit_length (n div 2)))"
  by pat_completeness auto
termination
  by (relation "measure nat") auto

declare bit_length.simps [simp del]

definition f64_round :: "int \<Rightarrow> int \<Rightarrow> float64" where
  \<comment> \<open>the double nearest to \<open>m * 2 ^ e\<close>, ties to the even mantissa\<close>
  "f64_round m e =
    (let n = bit_length \<bar>m\<bar>
     in if n \<le> 53 then f64_norm m e
        else
          let s = n - 53;
              q = \<bar>m\<bar> div 2 ^ s;
              r = \<bar>m\<bar> mod 2 ^ s;
              half = 2 ^ (s - 1);
              q' = (if half < r \<or> (r = half \<and> odd q) then q + 1 else q)
          in f64_norm (sgn m * q') (e + int s))"

fun f64_value :: "float64 \<Rightarrow> real" where
  \<comment> \<open>the real number a double stands for\<close>
  "f64_value (F64 m e) = real_of_int m * 2 powr real_of_int e"

definition f64_of_int :: "int \<Rightarrow> float64" where
  \<comment> \<open>\<^verbatim>\<open>float64(n)\<close> of an integer\<close>
  "f64_of_int n = f64_round n 0"

definition f64_0_01 :: float64 where
  \<comment> \<open>the constant \<^verbatim>\<open>0.01\<close>: the double nearest to one hundredth, \<^verbatim>\<open>0x1.47ae147ae147bp-7\<close>\<close>
  "f64_0_01 = F64 5764607523034235 (- 59)"

fun f64_mul :: "float64 \<Rightarrow> float64 \<Rightarrow> float64" where
  "f64_mul (F64 a e) (F64 b f) = f64_round (a * b) (e + f)"

fun f64_add :: "float64 \<Rightarrow> float64 \<Rightarrow> float64" where
  "f64_add (F64 a e) (F64 b f) =
    (let g = min e f
     in f64_round (a * 2 ^ nat (e - g) + b * 2 ^ nat (f - g)) g)"

fun f64_less :: "float64 \<Rightarrow> float64 \<Rightarrow> bool" where
  "f64_less (F64 a e) (F64 b f) =
    (let g = min e f
     in a * 2 ^ nat (e - g) < b * 2 ^ nat (f - g))"

definition f64_min :: "float64 \<Rightarrow> float64 \<Rightarrow> float64" where
  \<comment> \<open>Go's built-in \<^verbatim>\<open>min\<close>\<close>
  "f64_min x y = (if f64_less y x then y else x)"

definition f64_max :: "float64 \<Rightarrow> float64 \<Rightarrow> float64" where
  \<comment> \<open>Go's built-in \<^verbatim>\<open>max\<close>\<close>
  "f64_max x y = (if f64_less x y then y else x)"

text \<open>
  The quotient: \<open>a\<close> is shifted left until the integer quotient has at least 55 bits; a
  last bit is appended that says whether the division left a remainder; rounding that
  number to 53 bits rounds the exact quotient. A zero divisor, where the code yields NaN
  or an infinity, is outside the model (its result here is 0).
\<close>

fun f64_div :: "float64 \<Rightarrow> float64 \<Rightarrow> float64" where
  "f64_div (F64 a e) (F64 b f) =
    (if a = 0 \<or> b = 0 then F64 0 0
     else
       let s = 55 + bit_length \<bar>b\<bar> - bit_length \<bar>a\<bar>;
           q = (\<bar>a\<bar> * 2 ^ s) div \<bar>b\<bar>;
           r = (\<bar>a\<bar> * 2 ^ s) mod \<bar>b\<bar>;
           sticky = (if r = 0 then 0 else 1)
       in f64_round (sgn a * sgn b * (2 * q + sticky)) (e - f - int s - 1))"

subsection \<open>Statistics, maps and errors\<close>

record StationStats =
  Count :: int
  Min_v :: float64
  Max_v :: float64
  Sum_v :: float64

text \<open>
  A Go map from station names to statistics is a list of entries with distinct keys.
  The order of the list is the order of first insertion; Go leaves the order in which a
  \<^verbatim>\<open>range\<close> loop visits a map open, and the model takes that order as a parameter
  wherever the source iterates over a map: \<open>rng k m\<close> lists the entries of the map \<open>m\<close>
  in the order in which the \<open>k\<close>-th such loop of a run visits them.
\<close>

type_synonym StationMap = "(string \<times> StationStats) list"

datatype error =
    MalformedNumber string  \<comment> \<open>\<^verbatim>\<open>fmt.Errorf("malformed number: %q", raw)\<close>, carrying the raw text\<close>
  | Panic                   \<comment> \<open>a run-time panic: slice bounds, division by zero, negative length\<close>

definition substr :: "string \<Rightarrow> nat \<Rightarrow> nat \<Rightarrow> string" where
  \<comment> \<open>\<^verbatim>\<open>data[i:j]\<close>, for \<^verbatim>\<open>i <= j <= len(data)\<close>; the callers check the bounds.\<close>
  "substr data i j = take (j - i) (drop i data)"

section \<open>Fixed-decimal parser: \<^verbatim>\<open>parseTemp\<close>\<close>

definition byte :: "char \<Rightarrow> 8 word" where
  "byte c = of_nat (of_char c)"

definition float64_of_int32 :: "32 word \<Rightarrow> float64" where
  \<comment> \<open>\<^verbatim>\<open>float64(v)\<close> of an \<^verbatim>\<open>int32\<close>: the conversion of its signed value\<close>
  "float64_of_int32 v = f64_of_int (sint v)"

definition apply_sign :: "bool \<Rightarrow> 32 word \<Rightarrow> 32 word" where
  \<comment> \<open>\<^verbatim>\<open>if neg { v = -v }\<close>\<close>
  "apply_sign neg v = (if neg then - v else v)"

text \<open>
  \<open>parseTempScaled\<close> is \<^verbatim>\<open>parseTemp\<close> up to the \<^verbatim>\<open>int32\<close> value \<^verbatim>\<open>v\<close> of the case
  that is taken: the length checks, the sign, the position of the dot, the digits as
  bytes minus \<^verbatim>\<open>'0'\<close> (a subtraction of \<^verbatim>\<open>uint8\<close>, which wraps) and the scaled sum.
  \<open>None\<close> is the source's \<^verbatim>\<open>return 0, false\<close>.
\<close>

definition parseTempScaled :: "string \<Rightarrow> 32 word option" where
  "parseTempScaled b =
    (if length b < 4 then None
     else
       let neg = (b ! 0 = CHR ''-'');
           i = (if neg then 1 else 0 :: nat)
       in
       if neg \<and> length b - i < 4 then None
       else if i + 3 < length b \<and> b ! (i + 1) = CHR ''.'' then
         (let d0 = byte (b ! (i + 0)) - byte CHR ''0'';
              d1 = byte (b ! (i + 2)) - byte CHR ''0'';
              d2 = byte (b ! (i + 3)) - byte CHR ''0''
          in
          if d0 > 9 \<or> d1 > 9 \<or> d2 > 9 then None
          else
            let intv = (ucast d0 :: 32 word);
                frac = (ucast d1 :: 32 word) * 10 + ucast d2;
                v = intv * 100 + frac
            in Some (apply_sign neg v))
       else if i + 4 < length b \<and> b ! (i + 2) = CHR ''.'' then
         (let d0 = byte (b ! (i + 0)) - byte CHR ''0'';
              d1 = byte (b ! (i + 1)) - byte CHR ''0'';
              d2 = byte (b ! (i + 3)) - byte CHR ''0'';
              d3 = byte (b ! (i + 4)) - byte CHR ''0''
          in
          if d0 > 9 \<or> d1 > 9 \<or> d2 > 9 \<or> d3 > 9 then None
          else
            let intv = (ucast d0 :: 32 word) * 10 + ucast d1;
                frac = (ucast d2 :: 32 word) * 10 + ucast d3;
                v = intv * 100 + frac
            in Some (apply_sign neg v))
       else if i + 5 < length b \<and> b ! (i + 3) = CHR ''.'' then
         (let d0 = byte (b ! (i + 0)) - byte CHR ''0'';
              d1 = byte (b ! (i + 1)) - byte CHR ''0'';
              d2 = byte (b ! (i + 2)) - byte CHR ''0'';
              d3 = byte (b ! (i + 4)) - byte CHR ''0'';
              d4 = byte (b ! (i + 5)) - byte CHR ''0''
          in
          if d0 > 9 \<or> d1 > 9 \<or> d2 > 9 \<or> d3 > 9 \<or> d4 > 9 then None
          else
            let intv = (ucast d0 :: 32 word) * 100 + ucast d1 * 10 + ucast d2;
                frac = (ucast d3 :: 32 word) * 10 + ucast d4;
                v = intv * 100 + frac
            in Some (apply_sign neg v))
       else None)"

definition parseTemp :: "string \<Rightarrow> float64 option" where
  \<comment> \<open>\<^verbatim>\<open>return float64(v) * 0.01, true\<close> after each case\<close>
  "parseTemp b = map_option (\<lambda>v. f64_mul (float64_of_int32 v) f64_0_01) (parseTempScaled b)"

section \<open>Key extractor: \<^verbatim>\<open>readNameUntilSemicolon\<close>\<close>

text \<open>
  Both loops of the source leave through \<^verbatim>\<open>goto END\<close> with the offset of the
  semicolon they found (\<open>Some offset\<close>), or run to their end (\<open>None\<close>).
\<close>

function tail_scan :: "string \<Rightarrow> nat \<Rightarrow> nat \<Rightarrow> nat option" where
  "tail_scan s i offset =
    (if i < length s then
       if s ! i = CHR '';'' then Some (offset + i)
       else tail_scan s (i + 1) offset
     else None)"
  by pat_completeness auto
termination
  by (relation "measure (\<lambda>(s, i, offset). length s - i)") auto

declare tail_scan.simps [simp del]

function stride_scan :: "string \<Rightarrow> nat \<Rightarrow> nat option" where
  "stride_scan s offset =
    (if length s > 7 then
       if s ! 0 = CHR '';'' then Some offset
       else if s ! 1 = CHR '';'' then Some (offset + 1)
       else if s ! 2 = CHR '';'' then Some (offset + 2)
       else if s ! 3 = CHR '';'' then Some (offset + 3)
       else if s ! 4 = CHR '';'' then Some (offset + 4)
       else if s ! 5 = CHR '';'' then Some (offset + 5)
       else if s ! 6 = CHR '';'' then Some (offset + 6)
       else if s ! 7 = CHR '';'' then Some (offset + 7)
       else stride_scan (drop 8 s) (offset + 8)
     else tail_scan s 0 offset)"
  by pat_completeness auto
termination
  by (relation "measure (\<lambda>(s, offset). length s)") auto

declare stride_scan.simps [simp del]

definition readNameUntilSemicolon :: "string \<Rightarrow> string" where
  "readNameUntilSemicolon input =
    (case stride_scan input 0 of
       Some offset \<Rightarrow> take offset input
     | None \<Rightarrow> input)"

section \<open>Chunk planner: \<^verbatim>\<open>calculateChunks\<close>\<close>

text \<open>
  \<open>IndexByte\<close> is Go's \<^verbatim>\<open>strings.IndexByte\<close>: the index of the first occurrence of a
  byte, \<open>None\<close> for the source's \<^verbatim>\<open>-1\<close>. It is the plain byte-by-byte search.
\<close>

fun IndexByte :: "string \<Rightarrow> char \<Rightarrow> nat option" where
  "IndexByte [] c = None"
| "IndexByte (x # xs) c = (if x = c then Some 0 else map_option Suc (IndexByte xs c))"

type_synonym chunk = "nat \<times> nat"

text \<open>
  The loop \<^verbatim>\<open>for i := range numWorkers\<close>, as a recursion on the number of iterations
  left; it returns the chunks of these iterations in order. \<^verbatim>\<open>data[end:]\<close> panics
  when \<^verbatim>\<open>end\<close> is beyond the data.
\<close>

fun calculateChunks_loop ::
  "string \<Rightarrow> nat \<Rightarrow> nat \<Rightarrow> nat \<Rightarrow> nat \<Rightarrow> error + chunk list" where
  "calculateChunks_loop data fileSize chunkSize 0 currentPos = Inr []"
| "calculateChunks_loop data fileSize chunkSize (Suc n) currentPos =
    (let start = currentPos;
         end0 = start + chunkSize
     in
     if end0 \<ge> fileSize then
       (case calculateChunks_loop data fileSize chunkSize n fileSize of
          Inl e \<Rightarrow> Inl e
        | Inr chunks \<Rightarrow> Inr ((start, fileSize) # chunks))
     else if length data < end0 then Inl Panic
     else
       let end1 = (case IndexByte (drop end0 data) CHR 0x0A of
                     Some newlineIndex \<Rightarrow> end0 + newlineIndex + 1
                   | None \<Rightarrow> fileSize)
       in
       (case calculateChunks_loop data fileSize chunkSize n end1 of
          Inl e \<Rightarrow> Inl e
        | Inr chunks \<Rightarrow> Inr ((start, end1) # chunks)))"

definition calculateChunks :: "string \<Rightarrow> nat \<Rightarrow> int \<Rightarrow> error + chunk list" where
  \<comment> \<open>\<^verbatim>\<open>make\<close> panics on a negative length and the division on zero workers\<close>
  "calculateChunks data fileSize numWorkers =
    (if numWorkers \<le> 0 then Inl Panic
     else
       let n = nat numWorkers;
           chunkSize = fileSize div n
       in
       (case calculateChunks_loop data fileSize chunkSize n 0 of
          Inl e \<Rightarrow> Inl e
        | Inr chunks \<Rightarrow> Inr (chunks[n - 1 := (fst (chunks ! (n - 1)), fileSize)])))"

section \<open>Chunk scanner: \<^verbatim>\<open>processChunk\<close>\<close>

definition update_entry :: "StationMap \<Rightarrow> string \<Rightarrow> StationStats \<Rightarrow> StationMap" where
  \<comment> \<open>a write through the pointer the map holds for \<open>name\<close>\<close>
  "update_entry stats name s = map (\<lambda>(k, v). if k = name then (k, s) else (k, v)) stats"

definition record_temp :: "StationMap \<Rightarrow> string \<Rightarrow> float64 \<Rightarrow> StationMap" where
  "record_temp stats name temp =
    (case map_of stats name of
       Some s \<Rightarrow>
         update_entry stats name
           (s\<lparr>Min_v := f64_min (Min_v s) temp,
              Max_v := f64_max (Max_v s) temp,
              Sum_v := f64_add (Sum_v s) temp,
              Count := Count s + 1\<rparr>)
     | None \<Rightarrow>
         stats @ [(name, \<lparr>Count = 1, Min_v = temp, Max_v = temp, Sum_v = temp\<rparr>)])"

function scan_to_newline :: "string \<Rightarrow> nat \<Rightarrow> nat \<Rightarrow> nat" where
  \<comment> \<open>\<^verbatim>\<open>for i < end && data[i] != '\n' { i++ }\<close>\<close>
  "scan_to_newline data endp i =
    (if i < endp \<and> data ! i \<noteq> CHR 0x0A then scan_to_newline data endp (i + 1) else i)"
  by pat_completeness auto
termination
  by (relation "measure (\<lambda>(data, endp, i). endp - i)") auto

declare scan_to_newline.simps [simp del]

function processChunk_loop ::
  "string \<Rightarrow> nat \<Rightarrow> nat \<Rightarrow> StationMap \<Rightarrow> error + StationMap" where
  "processChunk_loop data endp i stats =
    (if i < endp then
       if length data < endp then Inl Panic
       else
         let remaining = substr data i endp;
             name = readNameUntilSemicolon remaining
         in
         if length name = length remaining then Inr stats
         else
           let start = i + length name + 1;
               j = scan_to_newline data endp start
           in
           (case parseTemp (substr data start j) of
              None \<Rightarrow> Inl (MalformedNumber (substr data start j))
            | Some temp \<Rightarrow>
                processChunk_loop data endp
                  (if j < endp \<and> data ! j = CHR 0x0A then j + 1 else j)
                  (record_temp stats name temp))
     else Inr stats)"
  by pat_completeness auto
termination
proof (relation "measure (\<lambda>(data, endp, i, stats). endp - i)")
  show "wf (measure (\<lambda>(data, endp, i, stats). endp - i))"
    by simp
next
  fix data :: string and endp i :: nat and stats :: StationMap
    and remaining name :: string and start j :: nat and temp :: float64
  assume lt: "i < endp" and start: "start = i + length name + 1"
    and j: "j = scan_to_newline data endp start"
  have ge: "k \<le> scan_to_newline data endp k" for k
  proof (induction data endp k rule: scan_to_newline.induct)
    case (1 data endp i)
    show ?case
    proof (cases "i < endp \<and> data ! i \<noteq> CHR 0x0A")
      case True
      then have "scan_to_newline data endp i = scan_to_newline data endp (i + 1)"
        by (subst scan_to_newline.simps) simp
      with "1.IH" True show ?thesis by simp
    next
      case False
      then show ?thesis
        by (subst scan_to_newline.simps) auto
    qed
  qed
  from ge [of start] start j have "i < j"
    by simp
  with lt show "((data, endp, if j < endp \<and> data ! j = CHR 0x0A then j + 1 else j,
      record_temp stats name temp), data, endp, i, stats)
    \<in> measure (\<lambda>(data, endp, i, stats). endp - i)"
    by auto
qed

declare processChunk_loop.simps [simp del]

definition processChunk :: "string \<Rightarrow> chunk \<Rightarrow> error + StationMap" where
  "processChunk data chunk = processChunk_loop data (snd chunk) (fst chunk) []"

section \<open>Merger and formatter\<close>

text \<open>
  \<open>merge_entry\<close> is the body of the inner loop of the merge in \<^verbatim>\<open>MustRun\<close>.
  \<^verbatim>\<open>finalStats\<close> is a \<^verbatim>\<open>map[string]StationStats\<close>: it holds the structs themselves,
  so \<^verbatim>\<open>existing, ok := finalStats[station]\<close> copies the entry into the local variable
  \<^verbatim>\<open>existing\<close>. The four assignments change that copy, and the source does not store
  it back into the map.
\<close>

definition merge_entry :: "StationMap \<Rightarrow> string \<times> StationStats \<Rightarrow> StationMap" where
  "merge_entry finalStats entry =
    (case entry of (station, stats) \<Rightarrow>
      (case map_of finalStats station of
         Some found \<Rightarrow>
           (let existing = found\<lparr>Min_v := f64_min (Min_v found) (Min_v stats),
                                 Max_v := f64_max (Max_v found) (Max_v stats),
                                 Sum_v := f64_add (Sum_v found) (Sum_v stats),
                                 Count := Count found + Count stats\<rparr>
            in finalStats)
       | None \<Rightarrow> finalStats @ [(station, stats)]))"

definition merge_worker ::
  "(StationMap \<Rightarrow> StationMap) \<Rightarrow> StationMap \<Rightarrow> StationMap \<Rightarrow> StationMap" where
  \<comment> \<open>\<^verbatim>\<open>for station, stats := range workerResult\<close>, visiting the entries in the order \<open>rng\<close>\<close>
  "merge_worker rng finalStats workerResult = foldl merge_entry finalStats (rng workerResult)"

definition merge_results ::
  "(nat \<Rightarrow> StationMap \<Rightarrow> StationMap) \<Rightarrow> StationMap list \<Rightarrow> StationMap" where
  \<comment> \<open>\<^verbatim>\<open>for _, workerResult := range results\<close>, in the order of the worker indices\<close>
  "merge_results rng results =
    foldl (\<lambda>finalStats (i, workerResult). merge_worker (rng i) finalStats workerResult)
      [] (List.enumerate 0 results)"

text \<open>
  \<^verbatim>\<open>%.2f\<close> of Go's \<^verbatim>\<open>fmt\<close>: sign, integer part, a dot and two digits, of the exact value
  of the double rounded to the nearest hundredth, a tie going to the even neighbour.
\<close>

definition digit_char :: "nat \<Rightarrow> char" where
  "digit_char n = ''0123456789'' ! n"

function digits10 :: "nat \<Rightarrow> string" where
  "digits10 n = (if n < 10 then [digit_char n] else digits10 (n div 10) @ [digit_char (n mod 10)])"
  by pat_completeness auto
termination
  by (relation "measure id") auto

declare digits10.simps [simp del]

fun hundredths :: "float64 \<Rightarrow> nat" where
  \<comment> \<open>the magnitude of the value times 100, rounded to an integer, ties to even\<close>
  "hundredths (F64 m e) =
    (if 0 \<le> e then nat (\<bar>m\<bar> * 100 * 2 ^ nat e)
     else
       let d = 2 ^ nat (- e);
           q = (\<bar>m\<bar> * 100) div d;
           r = (\<bar>m\<bar> * 100) mod d
       in nat (if d < 2 * r \<or> (2 * r = d \<and> odd q) then q + 1 else q))"

definition fmt_2f :: "float64 \<Rightarrow> string" where
  "fmt_2f x =
    (let n = hundredths x
     in (if f64_less x (F64 0 0) then ''-'' else '''')
        @ digits10 (n div 100) @ ''.''
        @ [digit_char (n mod 100 div 10), digit_char (n mod 10)])"

definition zero_stats :: StationStats where
  \<comment> \<open>the zero value a Go map returns for a key it does not hold\<close>
  "zero_stats = \<lparr>Count = 0, Min_v = F64 0 0, Max_v = F64 0 0, Sum_v = F64 0 0\<rparr>"

definition print_entry :: "StationMap \<Rightarrow> string \<Rightarrow> string" where
  \<comment> \<open>\<^verbatim>\<open>fmt.Fprintf(w, "%s=%.2f/%.2f/%.2f", name, s.Min, avg, s.Max)\<close>\<close>
  "print_entry stats name =
    (let s = (case map_of stats name of Some s \<Rightarrow> s | None \<Rightarrow> zero_stats);
         avg = f64_div (Sum_v s) (f64_of_int (Count s))
     in name @ ''='' @ fmt_2f (Min_v s) @ ''/'' @ fmt_2f avg @ ''/'' @ fmt_2f (Max_v s))"

fun print_entries :: "StationMap \<Rightarrow> string list \<Rightarrow> string" where
  \<comment> \<open>the loop over the sorted names: \<^verbatim>\<open>", "\<close> after every entry but the last\<close>
  "print_entries stats [] = ''''"
| "print_entries stats [name] = print_entry stats name"
| "print_entries stats (name # rest) = print_entry stats name @ '', '' @ print_entries stats rest"

definition printResults :: "(StationMap \<Rightarrow> StationMap) \<Rightarrow> StationMap \<Rightarrow> string" where
  \<comment> \<open>the names are collected in the order \<open>rng\<close> of the map, then sorted by \<^verbatim>\<open>sort.Strings\<close>\<close>
  "printResults rng stats =
    (let stationNames = sort (map fst (rng stats))
     in ''{'' @ print_entries stats stationNames @ ''}\<newline>'')"

section \<open>The pipeline of \<^verbatim>\<open>MustRun\<close>\<close>

text \<open>
  \<^verbatim>\<open>errg.Wait()\<close> waits for all workers and returns the first error that was reported.
  \<open>sched\<close> lists worker indices in the order in which they finish; workers it does not
  list finish after them, in index order.
\<close>

definition errg_Wait :: "nat list \<Rightarrow> (error + StationMap) list \<Rightarrow> error option" where
  "errg_Wait sched results =
    (case List.find isl (map (\<lambda>i. results ! i) (filter (\<lambda>i. i < length results) sched) @ results) of
       Some r \<Rightarrow> (case r of Inl err \<Rightarrow> Some err | Inr m \<Rightarrow> None)
     | None \<Rightarrow> None)"

definition worker_result :: "error + StationMap \<Rightarrow> StationMap" where
  \<comment> \<open>\<^verbatim>\<open>results[i]\<close>: the worker's map, \<^verbatim>\<open>nil\<close> (an empty map) when it failed\<close>
  "worker_result r = (case r of Inl err \<Rightarrow> [] | Inr m \<Rightarrow> m)"

text \<open>
  \<open>finalStats\<close> is \<^verbatim>\<open>MustRun\<close> from the planning of the chunks to the end of the merge
  (lines 107 to 133), for the mapped file \<open>data\<close> and the worker count \<open>fWorkers\<close>;
  \<open>MustRun\<close> adds the rendering to \<^verbatim>\<open>stdout\<close>. Flags, profiling, the opening and
  mapping of the file and the report to \<^verbatim>\<open>stderr\<close> are left out. The loop over the
  map of worker \<open>i\<close> is the \<open>i\<close>-th loop over a map, the one of \<^verbatim>\<open>printResults\<close> comes
  after those of all workers.
\<close>

definition finalStats ::
  "nat list \<Rightarrow> (nat \<Rightarrow> StationMap \<Rightarrow> StationMap) \<Rightarrow> string \<Rightarrow> int
     \<Rightarrow> error + StationMap" where
  "finalStats sched rng data fWorkers =
    (case calculateChunks data (length data) fWorkers of
       Inl e \<Rightarrow> Inl e
     | Inr chunks \<Rightarrow>
         let results = map (processChunk data) chunks
         in (case errg_Wait sched results of
               Some err \<Rightarrow> Inl err
             | None \<Rightarrow> Inr (merge_results rng (map worker_result results))))"

definition MustRun ::
  "nat list \<Rightarrow> (nat \<Rightarrow> StationMap \<Rightarrow> StationMap) \<Rightarrow> string \<Rightarrow> int
     \<Rightarrow> error + string" where
  "MustRun sched rng data fWorkers =
    (case finalStats sched rng data fWorkers of
       Inl err \<Rightarrow> Inl err
     | Inr stats \<Rightarrow> Inr (printResults (rng (nat fWorkers)) stats))"

definition stdout_of :: "error + string \<Rightarrow> string" where
  \<comment> \<open>what a run writes to \<^verbatim>\<open>stdout\<close>: the rendering, and nothing when it fails\<close>
  "stdout_of r = (case r of Inl err \<Rightarrow> '''' | Inr out \<Rightarrow> out)"

section \<open>The specification's words\<close>

definition linear_scan :: "string \<Rightarrow> string" where
  \<comment> \<open>the specification's key extractor: the input up to the first semicolon, or all of it\<close>
  "linear_scan s = (case IndexByte s CHR '';'' of Some j \<Rightarrow> take j s | None \<Rightarrow> s)"

text \<open>
  The fixed-decimal grammar of the specification: an optional \<^verbatim>\<open>-\<close>, then one, two or
  three digits, a dot and exactly two digits; and the integer such a text stands for
  when it is scaled by 100.
\<close>

definition is_digit :: "char \<Rightarrow> bool" where
  "is_digit c \<longleftrightarrow> CHR ''0'' \<le> c \<and> c \<le> CHR ''9''"

definition digit_value :: "char \<Rightarrow> int" where
  "digit_value c = int (of_char c) - 48"

fun unsigned_decimal :: "string \<Rightarrow> bool" where
  "unsigned_decimal [d0, p, d1, d2] \<longleftrightarrow>
     is_digit d0 \<and> p = CHR ''.'' \<and> is_digit d1 \<and> is_digit d2"
| "unsigned_decimal [d0, d1, p, d2, d3] \<longleftrightarrow>
     is_digit d0 \<and> is_digit d1 \<and> p = CHR ''.'' \<and> is_digit d2 \<and> is_digit d3"
| "unsigned_decimal [d0, d1, d2, p, d3, d4] \<longleftrightarrow>
     is_digit d0 \<and> is_digit d1 \<and> is_digit d2 \<and> p = CHR ''.'' \<and> is_digit d3 \<and> is_digit d4"
| "unsigned_decimal _ \<longleftrightarrow> False"

definition fixed_decimal :: "string \<Rightarrow> bool" where
  "fixed_decimal b =
    (case b of
       [] \<Rightarrow> False
     | c # r \<Rightarrow> if c = CHR ''-'' then unsigned_decimal r else unsigned_decimal b)"

fun unsigned_scaled :: "string \<Rightarrow> int" where
  "unsigned_scaled [d0, p, d1, d2] =
     digit_value d0 * 100 + digit_value d1 * 10 + digit_value d2"
| "unsigned_scaled [d0, d1, p, d2, d3] =
     digit_value d0 * 1000 + digit_value d1 * 100 + digit_value d2 * 10 + digit_value d3"
| "unsigned_scaled [d0, d1, d2, p, d3, d4] =
     digit_value d0 * 10000 + digit_value d1 * 1000 + digit_value d2 * 100
       + digit_value d3 * 10 + digit_value d4"
| "unsigned_scaled _ = 0"

definition scaled_integer :: "string \<Rightarrow> int" where
  "scaled_integer b =
    (case b of
       [] \<Rightarrow> 0
     | c # r \<Rightarrow> if c = CHR ''-'' then - unsigned_scaled r else unsigned_scaled b)"

text \<open>
  The partition invariant of the specification: \<open>contiguous_from p cs\<close> says that the
  chunks \<open>cs\<close> follow one another from the offset \<open>p\<close>, each starting where the one
  before it ends and none ending before it starts; a boundary is \<open>line_aligned\<close> when it
  is 0, the end of the file, or the offset just after a line terminator.
\<close>

fun contiguous_from :: "nat \<Rightarrow> chunk list \<Rightarrow> bool" where
  "contiguous_from p [] \<longleftrightarrow> True"
| "contiguous_from p (c # cs) \<longleftrightarrow> fst c = p \<and> fst c \<le> snd c \<and> contiguous_from (snd c) cs"

definition line_aligned :: "string \<Rightarrow> nat \<Rightarrow> bool" where
  "line_aligned data b \<longleftrightarrow> b = 0 \<or> b = length data \<or> (b < length data \<and> data ! (b - 1) = CHR 0x0A)"

section \<open>Properties of the key extractor\<close>

lemma IndexByte_takeWhile:
  "IndexByte s c = (if c \<in> set s then Some (length (takeWhile (\<lambda>x. x \<noteq> c) s)) else None)"
  by (induction s) auto

lemma IndexByte_Some_iff:
  "IndexByte s c = Some j \<longleftrightarrow> j < length s \<and> s ! j = c \<and> (\<forall>k<j. s ! k \<noteq> c)"
proof (induction s arbitrary: j)
  case Nil
  then show ?case by simp
next
  case (Cons x xs)
  show ?case
  proof (cases "x = c")
    case True
    then show ?thesis by (cases j) auto
  next
    case False
    show ?thesis
    proof (cases j)
      case 0
      with False show ?thesis by auto
    next
      case (Suc m)
      have "(\<forall>k<Suc m. (x # xs) ! k \<noteq> c) \<longleftrightarrow> (\<forall>k<m. xs ! k \<noteq> c)"
        using False by (auto simp: less_Suc_eq_0_disj)
      with False Suc Cons.IH [of m] show ?thesis by auto
    qed
  qed
qed

lemma IndexByte_None_iff: "IndexByte s c = None \<longleftrightarrow> c \<notin> set s"
  by (simp add: IndexByte_takeWhile)

lemma tail_scan_eq:
  "i \<le> length s \<Longrightarrow>
   tail_scan s i offset = map_option (\<lambda>k. offset + i + k) (IndexByte (drop i s) CHR '';'')"
proof (induction s i offset rule: tail_scan.induct)
  case (1 s i offset)
  show ?case
  proof (cases "i < length s")
    case True
    then have d: "drop i s = s ! i # drop (Suc i) s"
      by (simp add: Cons_nth_drop_Suc)
    show ?thesis
    proof (cases "s ! i = CHR '';''")
      case semi: True
      with True d show ?thesis
        by (subst tail_scan.simps) simp
    next
      case False
      with True have "tail_scan s i offset = tail_scan s (i + 1) offset"
        by (subst tail_scan.simps) simp
      also from True False have "\<dots> = map_option (\<lambda>k. offset + (i + 1) + k)
          (IndexByte (drop (i + 1) s) CHR '';'')"
        by (intro "1.IH") auto
      also from False d have "\<dots> = map_option (\<lambda>k. offset + i + k)
          (IndexByte (drop i s) CHR '';'')"
        by (simp add: option.map_comp comp_def)
      finally show ?thesis .
    qed
  next
    case False
    with "1.prems" show ?thesis
      by (subst tail_scan.simps) simp
  qed
qed

lemma list8_cases:
  assumes "7 < length s"
  shows "\<exists>c0 c1 c2 c3 c4 c5 c6 c7 r. s = c0 # c1 # c2 # c3 # c4 # c5 # c6 # c7 # r"
proof -
  from assms obtain c0 s0 where 0: "s = c0 # s0" "6 < length s0"
    by (cases s) auto
  then obtain c1 s1 where 1: "s0 = c1 # s1" "5 < length s1"
    by (cases s0) auto
  then obtain c2 s2 where 2: "s1 = c2 # s2" "4 < length s2"
    by (cases s1) auto
  then obtain c3 s3 where 3: "s2 = c3 # s3" "3 < length s3"
    by (cases s2) auto
  then obtain c4 s4 where 4: "s3 = c4 # s4" "2 < length s4"
    by (cases s3) auto
  then obtain c5 s5 where 5: "s4 = c5 # s5" "1 < length s5"
    by (cases s4) auto
  then obtain c6 s6 where 6: "s5 = c6 # s6" "0 < length s6"
    by (cases s5) auto
  then obtain c7 s7 where 7: "s6 = c7 # s7"
    by (cases s6) auto
  from 0 1 2 3 4 5 6 7 show ?thesis
    by blast
qed

lemma stride_scan_eq:
  "stride_scan s offset = map_option (\<lambda>k. offset + k) (IndexByte s CHR '';'')"
proof (induction s offset rule: stride_scan.induct)
  case (1 s offset)
  show ?case
  proof (cases "length s > 7")
    case False
    then have "stride_scan s offset = tail_scan s 0 offset"
      by (subst stride_scan.simps) simp
    then show ?thesis
      using tail_scan_eq [of 0 s offset] by simp
  next
    case True
    from list8_cases [OF True] obtain c0 c1 c2 c3 c4 c5 c6 c7 r
      where s: "s = c0 # c1 # c2 # c3 # c4 # c5 # c6 # c7 # r"
      by blast
    show ?thesis
    proof (cases "CHR '';'' \<in> {c0, c1, c2, c3, c4, c5, c6, c7}")
      case True
      with s show ?thesis
        by (subst stride_scan.simps) auto
    next
      case False
      then have ne: "c0 \<noteq> CHR '';''" "c1 \<noteq> CHR '';''" "c2 \<noteq> CHR '';''"
        "c3 \<noteq> CHR '';''" "c4 \<noteq> CHR '';''" "c5 \<noteq> CHR '';''" "c6 \<noteq> CHR '';''"
        "c7 \<noteq> CHR '';''"
        by auto
      with s have "stride_scan s offset = stride_scan r (offset + 8)"
        by (subst stride_scan.simps) simp
      also from s ne have "\<dots> = map_option (\<lambda>k. offset + 8 + k) (IndexByte r CHR '';'')"
        using "1.IH" by simp
      also from s ne have "\<dots> = map_option (\<lambda>k. offset + k) (IndexByte s CHR '';'')"
        by (cases "IndexByte r CHR '';''") simp_all
      finally show ?thesis .
    qed
  qed
qed

lemma readName_eq_linear: "readNameUntilSemicolon s = linear_scan s"
  by (simp add: readNameUntilSemicolon_def linear_scan_def stride_scan_eq split: option.splits)

text \<open>
  Claim C7. For every input \<open>s\<close> the 8-byte-stride scan returns what the plain linear
  scan returns: \<open>s\<close> cut before its first semicolon, at the index \<open>j\<close> that holds a
  semicolon with none before it, and \<open>s\<close> itself when it holds no semicolon.
\<close>

theorem readNameUntilSemicolon_is_linear_scan:
  "readNameUntilSemicolon s = linear_scan s
   \<and> (CHR '';'' \<notin> set s \<longrightarrow> readNameUntilSemicolon s = s)
   \<and> (\<forall>j. j < length s \<and> s ! j = CHR '';'' \<and> (\<forall>k<j. s ! k \<noteq> CHR '';'')
          \<longrightarrow> readNameUntilSemicolon s = take j s)"
proof (intro conjI allI impI)
  show "readNameUntilSemicolon s = linear_scan s"
    by (rule readName_eq_linear)
next
  assume "CHR '';'' \<notin> set s"
  then show "readNameUntilSemicolon s = s"
    by (simp add: readName_eq_linear linear_scan_def IndexByte_None_iff [THEN iffD2])
next
  fix j
  assume "j < length s \<and> s ! j = CHR '';'' \<and> (\<forall>k<j. s ! k \<noteq> CHR '';'')"
  then have "IndexByte s CHR '';'' = Some j"
    by (simp add: IndexByte_Some_iff)
  then show "readNameUntilSemicolon s = take j s"
    by (simp add: readName_eq_linear linear_scan_def)
qed

theorem readNameUntilSemicolon_is_linear_scan_witness:
  "readNameUntilSemicolon ''stationA;10;0'' = linear_scan ''stationA;10;0''
   \<and> readNameUntilSemicolon ''stationA;10;0'' = ''stationA''
   \<and> readNameUntilSemicolon ''no delimiter'' = ''no delimiter''"
proof -
  have a: "\<forall>k<8. ''stationA;10;0'' ! k \<noteq> CHR '';''"
    by (simp add: less_Suc_eq numeral_eq_Suc)
  have l: "(8::nat) < length ''stationA;10;0''"
    by simp
  have n: "''stationA;10;0'' ! 8 = CHR '';''"
    by simp
  have "readNameUntilSemicolon ''stationA;10;0'' = take 8 ''stationA;10;0''"
    using readNameUntilSemicolon_is_linear_scan
      [of "''stationA;10;0''", THEN conjunct2, THEN conjunct2, THEN spec, of 8] a l n
    by blast
  then have c: "readNameUntilSemicolon ''stationA;10;0'' = ''stationA''"
    by simp
  have b: "CHR '';'' \<notin> set ''no delimiter''"
    by simp
  have d: "readNameUntilSemicolon ''no delimiter'' = ''no delimiter''"
    using readNameUntilSemicolon_is_linear_scan
      [of "''no delimiter''", THEN conjunct2, THEN conjunct1] b
    by (rule mp)
  have e: "readNameUntilSemicolon ''stationA;10;0'' = linear_scan ''stationA;10;0''"
    using readNameUntilSemicolon_is_linear_scan [of "''stationA;10;0''"]
    by (rule conjunct1)
  from c d e show ?thesis
    by (simp only: simp_thms)
qed

section \<open>Properties of the fixed-decimal parser\<close>

lemma of_char_less_256: "(of_char c :: nat) < 256"
  by (cases c) simp

lemma unat_byte: "unat (byte c) = of_char c"
  by (simp add: byte_def unat_of_nat of_char_less_256)

lemma is_digit_iff: "is_digit c \<longleftrightarrow> 48 \<le> (of_char c :: nat) \<and> (of_char c :: nat) \<le> 57"
  by (simp add: is_digit_def less_eq_char_def)

lemma digit_value_range: "is_digit c \<Longrightarrow> 0 \<le> digit_value c \<and> digit_value c \<le> 9"
  by (auto simp: digit_value_def is_digit_iff)

lemma unat_digit_byte:
  assumes "is_digit c"
  shows "unat (byte c - byte CHR ''0'') = nat (digit_value c)"
proof -
  have z: "unat (byte CHR ''0'') = 48"
    by (simp add: unat_byte)
  from assms have "byte CHR ''0'' \<le> byte c"
    by (simp add: word_le_nat_alt unat_byte is_digit_iff)
  then have "unat (byte c - byte CHR ''0'') = unat (byte c) - unat (byte CHR ''0'')"
    by (rule unat_sub)
  with z assms show ?thesis
    by (simp add: unat_byte digit_value_def is_digit_iff)
qed

lemma digit_byte_le: 
  assumes "is_digit c" 
  shows "\<not> 9 < byte c - byte CHR ''0''"
proof -
  from digit_value_range [OF assms] have "nat (digit_value c) \<le> 9"
    by linarith
  then show ?thesis
    by (simp add: word_less_nat_alt unat_digit_byte [OF assms])
qed

lemma ucast_digit_byte:
  assumes "is_digit c"
  shows "(ucast (byte c - byte CHR ''0'') :: 32 word) = of_int (digit_value c)"
proof -
  have "(ucast (byte c - byte CHR ''0'') :: 32 word) = of_nat (unat (byte c - byte CHR ''0''))"
    by simp
  also have "\<dots> = of_nat (nat (digit_value c))"
    by (simp only: unat_digit_byte [OF assms])
  also from digit_value_range [OF assms] have "\<dots> = of_int (digit_value c)"
    by simp
  finally show ?thesis .
qed

lemma sint_of_int_small: "- (2 ^ 31) \<le> k \<Longrightarrow> k < 2 ^ 31 \<Longrightarrow> sint (of_int k :: 32 word) = k"
  by (simp add: signed_of_int signed_take_bit_int_eq_self)

lemma digit_not_minus: "is_digit c \<Longrightarrow> c \<noteq> CHR ''-''"
  by (auto simp: is_digit_iff)

lemma digit_not_dot: "is_digit c \<Longrightarrow> c \<noteq> CHR ''.''"
  by (auto simp: is_digit_iff)

lemma parse_unsigned:
  assumes "unsigned_decimal r"
  shows "parseTempScaled r = Some (of_int (unsigned_scaled r))"
    and "parseTempScaled (CHR ''-'' # r) = Some (- of_int (unsigned_scaled r))"
  using assms
  by (cases r rule: unsigned_decimal.cases;
      simp add: parseTempScaled_def Let_def apply_sign_def digit_byte_le ucast_digit_byte
        digit_not_minus digit_not_dot)+

lemma unsigned_scaled_range:
  assumes "unsigned_decimal r"
  shows "0 \<le> unsigned_scaled r \<and> unsigned_scaled r \<le> 99999"
proof (cases r rule: unsigned_decimal.cases)
  case (1 d0 p d1 d2)
  with assms digit_value_range [of d0] digit_value_range [of d1] digit_value_range [of d2]
  show ?thesis by simp
next
  case (2 d0 d1 p d2 d3)
  with assms digit_value_range [of d0] digit_value_range [of d1] digit_value_range [of d2]
    digit_value_range [of d3]
  show ?thesis by simp
next
  case (3 d0 d1 d2 p d3 d4)
  with assms digit_value_range [of d0] digit_value_range [of d1] digit_value_range [of d2]
    digit_value_range [of d3] digit_value_range [of d4]
  show ?thesis by simp
qed (use assms in simp_all)

lemma sint_scaled:
  assumes "0 \<le> k" "k \<le> 99999"
  shows "sint (of_int k :: 32 word) = k" and "sint (- of_int k :: 32 word) = - k"
proof -
  from assms show "sint (of_int k :: 32 word) = k"
    by (intro sint_of_int_small) simp_all
  have "- (of_int k :: 32 word) = of_int (- k)"
    by simp
  moreover from assms have "sint (of_int (- k) :: 32 word) = - k"
    by (intro sint_of_int_small) simp_all
  ultimately show "sint (- of_int k :: 32 word) = - k"
    by simp
qed

lemma parseTemp_of_scaled:
  "parseTempScaled b = Some v \<Longrightarrow> sint v = k \<Longrightarrow>
   parseTemp b = Some (f64_mul (f64_of_int k) f64_0_01)"
  unfolding parseTemp_def float64_of_int32_def by (simp only: option.map)

lemma bit_length_le:
  "0 \<le> n \<Longrightarrow> n < 2 ^ k \<Longrightarrow> bit_length n \<le> k"
proof (induction k arbitrary: n)
  case 0
  then have "n = 0"
    by simp
  then show ?case
    by (subst bit_length.simps) simp
next
  case (Suc k)
  show ?case
  proof (cases "n \<le> 0")
    case True
    then show ?thesis
      by (subst bit_length.simps) simp
  next
    case False
    with Suc.prems have "0 \<le> n div 2" "n div 2 < 2 ^ k"
      by simp_all
    from Suc.IH [OF this] False show ?thesis
      by (subst bit_length.simps) simp
  qed
qed

lemma f64_value_norm: "f64_value (f64_norm m e) = real_of_int m * 2 powr real_of_int e"
proof (induction m e rule: f64_norm.induct)
  case (1 m e)
  show ?case
  proof (cases "m = 0")
    case True
    then show ?thesis
      by (subst f64_norm.simps) simp
  next
    case nz: False
    show ?thesis
    proof (cases "even m")
      case True
      with nz have "f64_norm m e = f64_norm (m div 2) (e + 1)"
        by (subst f64_norm.simps) simp
      with "1.IH" [OF nz True]
      have "f64_value (f64_norm m e) = real_of_int (m div 2) * 2 powr real_of_int (e + 1)"
        by simp
      also have "\<dots> = real_of_int (m div 2) * 2 * 2 powr real_of_int e"
        by (simp add: powr_add)
      also from True have "real_of_int (m div 2) * 2 = real_of_int m"
        by (simp add: real_of_int_div)
      finally show ?thesis .
    next
      case False
      with nz show ?thesis
        by (subst f64_norm.simps) simp
    qed
  qed
qed

lemma f64_of_int_exact:
  assumes "\<bar>k\<bar> \<le> 99999"
  shows "f64_value (f64_of_int k) = real_of_int k"
proof -
  from assms have "\<bar>k\<bar> < 2 ^ 53"
    by simp
  with bit_length_le [of "\<bar>k\<bar>" 53] have "bit_length \<bar>k\<bar> \<le> 53"
    by simp
  then have "f64_of_int k = f64_norm k 0"
    by (simp add: f64_of_int_def f64_round_def)
  then show ?thesis
    by (simp add: f64_value_norm)
qed

text \<open>
  Rounding to the nearest double changes a value by at most one part in \<open>2 ^ 53\<close>, so the
  product that \<^verbatim>\<open>parseTemp\<close> returns is close to the exact hundredths.
\<close>

lemma bit_length_lower: "0 < n \<Longrightarrow> 2 ^ (bit_length n - 1) \<le> n"
proof (induction n rule: bit_length.induct)
  case (1 n)
  show ?case
  proof (cases "n div 2 = 0")
    case True
    with "1.prems" have "n = 1"
      by presburger
    then show ?thesis
      by (subst bit_length.simps, subst bit_length.simps) simp
  next
    case False
    with "1.prems" have pos: "0 < n div 2"
      by presburger
    with "1.prems" "1.IH" have ih: "2 ^ (bit_length (n div 2) - 1) \<le> n div 2"
      by simp
    from pos have "0 < bit_length (n div 2)"
      by (subst bit_length.simps) simp
    then have "(2::int) ^ bit_length (n div 2) = 2 * 2 ^ (bit_length (n div 2) - 1)"
      by (cases "bit_length (n div 2)") simp_all
    with ih have "2 ^ bit_length (n div 2) \<le> n"
      by presburger
    with "1.prems" show ?thesis
      by (subst bit_length.simps) simp
  qed
qed

lemma f64_round_error:
  "\<bar>f64_value (f64_round m e) - real_of_int m * 2 powr real_of_int e\<bar>
     \<le> 2 ^ (bit_length \<bar>m\<bar> - 53) / 2 * 2 powr real_of_int e"
proof (cases "bit_length \<bar>m\<bar> \<le> 53")
  case True
  then show ?thesis
    by (simp add: f64_round_def f64_value_norm)
next
  case False
  define s where "s = bit_length \<bar>m\<bar> - 53"
  define q where "q = \<bar>m\<bar> div 2 ^ s"
  define r where "r = \<bar>m\<bar> mod 2 ^ s"
  define q' where "q' = (if 2 ^ (s - 1) < r \<or> (r = 2 ^ (s - 1) \<and> odd q) then q + 1 else q)"
  from False have s: "0 < s"
    by (simp add: s_def)
  then have two: "(2::int) ^ s = 2 * 2 ^ (s - 1)"
    by (cases s) simp_all
  have m: "\<bar>m\<bar> = q * 2 ^ s + r"
    unfolding q_def r_def by (rule div_mult_mod_eq [symmetric])
  have r: "0 \<le> r" "r < 2 ^ s"
    by (simp_all add: r_def)
  have rnd: "f64_round m e = f64_norm (sgn m * q') (e + int s)"
    using False by (simp add: f64_round_def Let_def s_def q_def r_def q'_def)
  have err: "\<bar>q' * 2 ^ s - \<bar>m\<bar>\<bar> \<le> 2 ^ (s - 1)"
    using m r two by (auto simp: q'_def algebra_simps)
  define d where "d = sgn m * (q' * 2 ^ s - \<bar>m\<bar>)"
  define P where "P = 2 powr real_of_int e"
  have P: "0 < P"
    by (simp add: P_def)
  have eq: "f64_value (f64_round m e) - real_of_int m * P = real_of_int d * P"
  proof -
    have "2 powr real_of_int (e + int s) = 2 ^ s * P"
      by (simp add: powr_add powr_realpow P_def)
    moreover have "sgn m * \<bar>m\<bar> = m"
      by (simp add: mult_sgn_abs)
    then have "real_of_int m = real_of_int (sgn m) * real_of_int \<bar>m\<bar>"
      by (metis of_int_mult)
    ultimately show ?thesis
      by (simp add: rnd f64_value_norm d_def algebra_simps del: of_int_abs)
  qed
  from err have "\<bar>d\<bar> \<le> 2 ^ (s - 1)"
    by (cases "m = 0") (simp_all add: d_def abs_mult abs_sgn_eq)
  then have "real_of_int \<bar>d\<bar> \<le> real_of_int (2 ^ (s - 1))"
    by (simp only: of_int_le_iff)
  with P have "real_of_int \<bar>d\<bar> * P \<le> real_of_int (2 ^ (s - 1)) * P"
    by (intro mult_right_mono) simp_all
  moreover from P have "\<bar>real_of_int d * P\<bar> = real_of_int \<bar>d\<bar> * P"
    by (simp add: abs_mult)
  moreover have "real_of_int (2 ^ (s - 1)) = 2 ^ s / 2"
    using s by (cases s) simp_all
  ultimately have "\<bar>real_of_int d * P\<bar> \<le> 2 ^ s / 2 * P"
    by (simp only:)
  with eq show ?thesis
    by (simp add: s_def P_def)
qed


lemma f64_round_relative:
  "\<bar>f64_value (f64_round m e) - real_of_int m * 2 powr real_of_int e\<bar>
     \<le> \<bar>real_of_int m * 2 powr real_of_int e\<bar> / 2 ^ 53"
proof (cases "bit_length \<bar>m\<bar> \<le> 53")
  case True
  then show ?thesis
    by (simp add: f64_round_def f64_value_norm)
next
  case False
  define n where "n = bit_length \<bar>m\<bar>"
  define P where "P = 2 powr real_of_int e"
  have P: "0 < P"
    by (simp add: P_def)
  from False have n: "53 < n"
    by (simp add: n_def)
  then have "0 < \<bar>m\<bar>"
    by (cases "m = 0") (simp_all add: n_def bit_length.simps)
  from bit_length_lower [OF this] have "2 ^ (n - 1) \<le> \<bar>m\<bar>"
    by (simp add: n_def)
  then have "real_of_int (2 ^ (n - 1)) \<le> real_of_int \<bar>m\<bar>"
    by (simp only: of_int_le_iff)
  then have low: "(2::real) ^ (n - 1) \<le> \<bar>real_of_int m\<bar>"
    by simp
  from n have "n - 1 = (n - 53) + 52"
    by simp
  then have "(2::real) ^ (n - 1) = 2 ^ (n - 53) * 2 ^ 52"
    by (simp only: power_add)
  with low have "(2::real) ^ (n - 53) / 2 \<le> \<bar>real_of_int m\<bar> / 2 ^ 53"
    by simp
  with P have A: "2 ^ (n - 53) / 2 * P \<le> \<bar>real_of_int m\<bar> / 2 ^ 53 * P"
    by (intro mult_right_mono) simp_all
  have B: "\<bar>f64_value (f64_round m e) - real_of_int m * P\<bar> \<le> 2 ^ (n - 53) / 2 * P"
    unfolding n_def P_def by (rule f64_round_error)
  from P have C: "\<bar>real_of_int m * P\<bar> / 2 ^ 53 = \<bar>real_of_int m\<bar> / 2 ^ 53 * P"
    by (simp add: abs_mult)
  from B A have "\<bar>f64_value (f64_round m e) - real_of_int m * P\<bar>
      \<le> \<bar>real_of_int m\<bar> / 2 ^ 53 * P"
    by (rule order_trans)
  then have "\<bar>f64_value (f64_round m e) - real_of_int m * P\<bar>
      \<le> \<bar>real_of_int m * P\<bar> / 2 ^ 53"
    by (simp only: C)
  then show ?thesis
    unfolding P_def .
qed

lemma f64_mul_relative:
  "\<bar>f64_value (f64_mul x y) - f64_value x * f64_value y\<bar>
     \<le> \<bar>f64_value x * f64_value y\<bar> / 2 ^ 53"
proof -
  obtain a e where x: "x = F64 a e"
    by (cases x)
  obtain b f where y: "y = F64 b f"
    by (cases y)
  have eqv: "real_of_int (a * b) * 2 powr real_of_int (e + f)
      = f64_value (F64 a e) * f64_value (F64 b f)"
    by (simp add: powr_add)
  have "\<bar>f64_value (f64_round (a * b) (e + f))
        - real_of_int (a * b) * 2 powr real_of_int (e + f)\<bar>
      \<le> \<bar>real_of_int (a * b) * 2 powr real_of_int (e + f)\<bar> / 2 ^ 53"
    by (rule f64_round_relative)
  then show ?thesis
    unfolding x y f64_mul.simps eqv .
qed

lemma f64_value_0_01: "f64_value f64_0_01 = 5764607523034235 / 2 ^ 59"
proof -
  have "(2::real) powr - 59 = 1 / 2 ^ 59"
    by (simp add: powr_minus_divide powr_realpow [symmetric])
  then show ?thesis
    by (simp add: f64_0_01_def)
qed

lemma parse_product_accuracy:
  assumes "\<bar>k\<bar> \<le> 99999"
  shows "\<bar>f64_value (f64_mul (f64_of_int k) f64_0_01) - real_of_int k / 100\<bar> \<le> 1 / 2 ^ 42"
proof -
  define c :: real where "c = 5764607523034235 / 2 ^ 59"
  define K where "K = real_of_int k"
  from assms have K: "\<bar>K\<bar> \<le> 99999"
    unfolding K_def by linarith
  have v: "f64_value (f64_of_int k) * f64_value f64_0_01 = K * c"
    by (simp add: f64_of_int_exact [OF assms] f64_value_0_01 c_def K_def)
  from f64_mul_relative [of "f64_of_int k" f64_0_01]
  have 1: "\<bar>f64_value (f64_mul (f64_of_int k) f64_0_01) - K * c\<bar> \<le> \<bar>K * c\<bar> / 2 ^ 53"
    by (simp only: v)
  have c: "0 < c" "c \<le> 1 / 98"
    by (simp_all add: c_def)
  from K c have "\<bar>K * c\<bar> \<le> 99999 * (1 / 98)"
    unfolding abs_mult by (intro mult_mono) simp_all
  then have 2: "\<bar>K * c\<bar> / 2 ^ 53 \<le> 1 / 2 ^ 43"
    by simp
  have d: "c - 1 / 100 = 12 / (100 * 2 ^ 59)"
    by (simp add: c_def)
  have "K * c - K / 100 = K * (c - 1 / 100)"
    by (simp add: algebra_simps)
  then have "K * c - K / 100 = K * (12 / (100 * 2 ^ 59))"
    by (simp only: d)
  then have "\<bar>K * c - K / 100\<bar> = \<bar>K * (12 / (100 * 2 ^ 59))\<bar>"
    by (simp only:)
  also have "\<dots> = \<bar>K\<bar> * (12 / (100 * 2 ^ 59))"
    by (simp add: abs_mult)
  also from K have "\<dots> \<le> 99999 * (12 / (100 * 2 ^ 59))"
    by (intro mult_right_mono) simp_all
  also have "\<dots> \<le> 1 / 2 ^ 45"
    by simp
  finally have 3: "\<bar>K * c - K / 100\<bar> \<le> 1 / 2 ^ 45" .
  have "\<bar>f64_value (f64_mul (f64_of_int k) f64_0_01) - K / 100\<bar>
      \<le> \<bar>f64_value (f64_mul (f64_of_int k) f64_0_01) - K * c\<bar> + \<bar>K * c - K / 100\<bar>"
    by linarith
  also from 1 2 3 have "\<dots> \<le> 1 / 2 ^ 43 + 1 / 2 ^ 45"
    by linarith
  also have "\<dots> \<le> 1 / 2 ^ 42"
    by simp
  finally show ?thesis
    by (simp only: K_def)
qed

text \<open>
  Claim C8. For every text of the grammar \<^verbatim>\<open>[-]D{1,3}.DD\<close>, \<^verbatim>\<open>parseTemp\<close> succeeds; the
  \<^verbatim>\<open>int32\<close> it computes is, read as a signed number, the integer the text stands for
  when scaled by 100, so nothing overflowed; that integer lies between -99999 and 99999;
  its conversion to \<^verbatim>\<open>float64\<close> is exact; and the result is the \<^verbatim>\<open>float64\<close> product of
  that integer and the constant \<^verbatim>\<open>0.01\<close>, as the source computes it: a double that
  differs from the exact value, the integer divided by 100, by at most \<open>2 ^ - 42\<close>.
\<close>

theorem parseTemp_scaled_value:
  assumes "fixed_decimal b"
  shows "\<exists>v. parseTempScaled b = Some v \<and> sint v = scaled_integer b
           \<and> \<bar>scaled_integer b\<bar> \<le> 99999
           \<and> f64_value (float64_of_int32 v) = real_of_int (scaled_integer b)
           \<and> parseTemp b = Some (f64_mul (f64_of_int (scaled_integer b)) f64_0_01)
           \<and> \<bar>f64_value (f64_mul (f64_of_int (scaled_integer b)) f64_0_01)
                - real_of_int (scaled_integer b) / 100\<bar> \<le> 1 / 2 ^ 42"
proof -
  have "\<exists>v. parseTempScaled b = Some v \<and> sint v = scaled_integer b
      \<and> \<bar>scaled_integer b\<bar> \<le> 99999"
  proof (cases b)
    case Nil
    with assms show ?thesis
      by (simp add: fixed_decimal_def)
  next
    case (Cons c r)
    show ?thesis
    proof (cases "c = CHR ''-''")
      case True
      with Cons assms have u: "unsigned_decimal r"
        by (simp add: fixed_decimal_def)
      from True Cons have s: "scaled_integer b = - unsigned_scaled r"
        by (simp add: scaled_integer_def)
      from unsigned_scaled_range [OF u]
      have r: "0 \<le> unsigned_scaled r" "unsigned_scaled r \<le> 99999"
        by simp_all
      from parse_unsigned(2) [OF u] True Cons
      have p: "parseTempScaled b = Some (- of_int (unsigned_scaled r))"
        by simp
      from sint_scaled(2) [OF r]
      have v: "sint (- of_int (unsigned_scaled r) :: 32 word) = scaled_integer b"
        by (simp only: s)
      from r s have "\<bar>scaled_integer b\<bar> \<le> 99999"
        by simp
      with p v show ?thesis
        by blast
    next
      case False
      with Cons assms have u: "unsigned_decimal b"
        by (simp add: fixed_decimal_def)
      from False Cons have s: "scaled_integer b = unsigned_scaled b"
        by (simp add: scaled_integer_def)
      from unsigned_scaled_range [OF u]
      have r: "0 \<le> unsigned_scaled b" "unsigned_scaled b \<le> 99999"
        by simp_all
      from sint_scaled(1) [OF r]
      have v: "sint (of_int (unsigned_scaled b) :: 32 word) = scaled_integer b"
        by (simp only: s)
      from r s have "\<bar>scaled_integer b\<bar> \<le> 99999"
        by simp
      with parse_unsigned(1) [OF u] v show ?thesis
        by blast
    qed
  qed
  then obtain v where v: "parseTempScaled b = Some v" "sint v = scaled_integer b"
    and k: "\<bar>scaled_integer b\<bar> \<le> 99999"
    by blast
  from f64_of_int_exact [OF k] v(2)
  have "f64_value (float64_of_int32 v) = real_of_int (scaled_integer b)"
    by (simp only: float64_of_int32_def)
  with v k parseTemp_of_scaled [OF v] parse_product_accuracy [OF k] show ?thesis
    by blast
qed

text \<open>
  For instance \<^verbatim>\<open>23.40\<close> stands for 2340 and \<^verbatim>\<open>parseTemp\<close> returns the double
  \<open>6586514455029351 * 2 ^ - 48\<close>, which is 23.400000000000002, the rounded product of
  2340 and the double nearest to 0.01; \<^verbatim>\<open>-1.00\<close> gives exactly -1.
\<close>

theorem parseTemp_scaled_value_witness:
  "fixed_decimal ''23.40'' \<and> scaled_integer ''23.40'' = 2340
   \<and> parseTemp ''23.40'' = Some (F64 6586514455029351 (- 48))
   \<and> fixed_decimal ''-1.00'' \<and> scaled_integer ''-1.00'' = - 100
   \<and> parseTemp ''-1.00'' = Some (F64 (- 1) 0)
   \<and> fixed_decimal ''-999.99'' \<and> parseTempScaled ''-999.99'' = Some (- 99999)"
proof -
  have a: "fixed_decimal ''23.40''" and b: "fixed_decimal ''-1.00''"
    and c: "fixed_decimal ''-999.99''"
    by (simp_all add: fixed_decimal_def is_digit_def)
  have sa: "scaled_integer ''23.40'' = 2340" and sb: "scaled_integer ''-1.00'' = - 100"
    and sc: "scaled_integer ''-999.99'' = - 99999"
    by (simp_all add: scaled_integer_def digit_value_def)
  have ma: "f64_mul (f64_of_int 2340) f64_0_01 = F64 6586514455029351 (- 48)"
    by code_simp
  have mb: "f64_mul (f64_of_int (- 100)) f64_0_01 = F64 (- 1) 0"
    by code_simp
  from parseTemp_scaled_value [OF a]
  have pa: "parseTemp ''23.40'' = Some (F64 6586514455029351 (- 48))"
    by (auto simp only: sa ma)
  from parseTemp_scaled_value [OF b]
  have pb: "parseTemp ''-1.00'' = Some (F64 (- 1) 0)"
    by (auto simp only: sb mb)
  from parseTemp_scaled_value [OF c] obtain v
    where v: "parseTempScaled ''-999.99'' = Some v" "sint v = - 99999"
    by (auto simp only: sc)
  have "sint (- 99999 :: 32 word) = - 99999"
    by simp
  with v(2) have "v = - 99999"
    by (simp add: signed_word_eqI)
  with v(1) have pc: "parseTempScaled ''-999.99'' = Some (- 99999)"
    by simp
  from a b c sa sb pa pb pc show ?thesis
    by (simp only: simp_thms)
qed

text \<open>
  Claim C2 says that \<^verbatim>\<open>parseTemp\<close> rejects every text outside the grammar, extra bytes
  after the two fraction digits included. Each case of the source checks that the bytes
  it reads exist (\<^verbatim>\<open>i+3 < len(b)\<close>) and never that the text ends there: \<^verbatim>\<open>1.234\<close> and
  \<^verbatim>\<open>-12.345abc\<close> are outside the grammar and are accepted, as the products of 123 and
  of -1234 with 0.01, that is as 1.23 and -12.34.
\<close>

theorem parseTemp_accepts_trailing_bytes:
  "\<not> fixed_decimal ''1.234''
   \<and> parseTemp ''1.234'' = Some (f64_mul (f64_of_int 123) f64_0_01)
   \<and> fmt_2f (f64_mul (f64_of_int 123) f64_0_01) = ''1.23''
   \<and> \<not> fixed_decimal ''-12.345abc''
   \<and> parseTemp ''-12.345abc'' = Some (f64_mul (f64_of_int (- 1234)) f64_0_01)
   \<and> fmt_2f (f64_mul (f64_of_int (- 1234)) f64_0_01) = ''-12.34''"
  by code_simp

section \<open>Properties of the chunk planner\<close>

lemma IndexByte_drop_newline:
  assumes "IndexByte (drop e data) c = Some j"
  shows "e + j < length data" and "data ! (e + j) = c"
proof -
  from assms have j: "j < length (drop e data)" and n: "drop e data ! j = c"
    by (simp_all add: IndexByte_Some_iff)
  from j show "e + j < length data"
    by simp
  with n show "data ! (e + j) = c"
    by simp
qed

lemma calculateChunks_loop_props:
  assumes "pos \<le> length data"
  shows "\<exists>cs. calculateChunks_loop data (length data) k n pos = Inr cs
           \<and> length cs = n
           \<and> contiguous_from pos cs
           \<and> (\<forall>c\<in>set cs. snd c \<le> length data \<and> line_aligned data (snd c))"
  using assms
proof (induction n arbitrary: pos)
  case 0
  then show ?case by simp
next
  case (Suc n)
  show ?case
  proof (cases "length data \<le> pos + k")
    case True
    from Suc.IH [of "length data"] obtain cs where cs:
      "calculateChunks_loop data (length data) k n (length data) = Inr cs"
      "length cs = n" "contiguous_from (length data) cs"
      "\<forall>c\<in>set cs. snd c \<le> length data \<and> line_aligned data (snd c)"
      by auto
    with True Suc.prems show ?thesis
      by (simp add: Let_def line_aligned_def)
  next
    case False
    define e1 where "e1 = (case IndexByte (drop (pos + k) data) CHR 0x0A of
        Some newlineIndex \<Rightarrow> pos + k + newlineIndex + 1 | None \<Rightarrow> length data)"
    have e1: "e1 \<le> length data \<and> pos \<le> e1 \<and> line_aligned data e1"
    proof (cases "IndexByte (drop (pos + k) data) CHR 0x0A")
      case None
      with Suc.prems show ?thesis
        by (simp add: e1_def line_aligned_def)
    next
      case (Some j)
      from IndexByte_drop_newline [OF Some] Some show ?thesis
        by (auto simp: e1_def line_aligned_def)
    qed
    then have "e1 \<le> length data"
      by simp
    from Suc.IH [OF this] obtain cs where cs:
      "calculateChunks_loop data (length data) k n e1 = Inr cs"
      "length cs = n" "contiguous_from e1 cs"
      "\<forall>c\<in>set cs. snd c \<le> length data \<and> line_aligned data (snd c)"
      by auto
    from False cs e1 show ?thesis
      by (simp add: Let_def e1_def [symmetric])
  qed
qed

lemma contiguous_from_force_last:
  assumes "contiguous_from p cs" "cs \<noteq> []" "\<forall>c\<in>set cs. snd c \<le> F"
  shows "contiguous_from p (cs[length cs - 1 := (fst (cs ! (length cs - 1)), F)])"
  using assms
proof (induction cs arbitrary: p)
  case Nil
  then show ?case by simp
next
  case (Cons c cs)
  show ?case
  proof (cases cs)
    case Nil
    with Cons.prems show ?thesis
      using contiguous_from.elims(2) by fastforce
  next
    case (Cons d ds)
    with Cons.prems Cons.IH [of "snd c"] show ?thesis
      by (simp add: nth_Cons')
  qed
qed

lemma contiguous_from_nth:
  assumes "contiguous_from p cs"
  shows "(cs \<noteq> [] \<longrightarrow> fst (cs ! 0) = p)
       \<and> (\<forall>i. Suc i < length cs \<longrightarrow> fst (cs ! Suc i) = snd (cs ! i))
       \<and> (\<forall>i<length cs. fst (cs ! i) \<le> snd (cs ! i))"
  using assms
proof (induction cs arbitrary: p)
  case Nil
  then show ?case by simp
next
  case (Cons c cs)
  from Cons.IH [of "snd c"] Cons.prems
  have ih: "(cs \<noteq> [] \<longrightarrow> fst (cs ! 0) = snd c)"
    "\<forall>i. Suc i < length cs \<longrightarrow> fst (cs ! Suc i) = snd (cs ! i)"
    "\<forall>i<length cs. fst (cs ! i) \<le> snd (cs ! i)"
    by simp_all
  have 1: "fst ((c # cs) ! 0) = p"
    using Cons.prems by simp
  have 2: "fst ((c # cs) ! Suc i) = snd ((c # cs) ! i)" if "Suc i < length (c # cs)" for i
    using that ih(1,2) by (cases i) auto
  have 3: "fst ((c # cs) ! i) \<le> snd ((c # cs) ! i)" if "i < length (c # cs)" for i
    using that ih(3) Cons.prems by (cases i) auto
  from 1 2 3 show ?case
    by blast
qed

lemma calculateChunks_loop_length:
  "calculateChunks_loop data fileSize k n pos = Inr cs \<Longrightarrow> length cs = n"
proof (induction n arbitrary: pos cs)
  case 0
  then show ?case by simp
next
  case (Suc n)
  then show ?case
    by (auto simp: Let_def split: if_splits sum.splits)
qed

lemma calculateChunks_last_end:
  assumes "calculateChunks data fileSize W = Inr chunks"
  shows "length chunks = nat W \<and> snd (chunks ! (nat W - 1)) = fileSize"
proof -
  from assms have W: "0 < W"
    by (simp add: calculateChunks_def split: if_splits)
  with assms obtain cs where cs:
    "calculateChunks_loop data fileSize (fileSize div nat W) (nat W) 0 = Inr cs"
    "chunks = cs[nat W - 1 := (fst (cs ! (nat W - 1)), fileSize)]"
    by (auto simp: calculateChunks_def Let_def split: sum.splits)
  from calculateChunks_loop_length [OF cs(1)] have "length cs = nat W" .
  with W cs(2) show ?thesis
    by simp
qed

text \<open>
  Claim C3. For every file content \<open>data\<close>, of size \<open>length data\<close>, and every worker
  count \<open>W\<close> of at least 1, \<^verbatim>\<open>calculateChunks\<close> returns exactly \<open>W\<close> ranges; the first
  starts at 0, the last ends at the file size, each starts where the one before it ends,
  none ends before it starts or after the file, and every boundary other than 0 and the
  file size follows a line terminator. Whatever file size it is given, the end of the
  last chunk is that size.
\<close>

theorem calculateChunks_partition:
  assumes "1 \<le> W"
  shows "\<exists>chunks. calculateChunks data (length data) W = Inr chunks
    \<and> length chunks = nat W
    \<and> fst (chunks ! 0) = 0
    \<and> snd (chunks ! (nat W - 1)) = length data
    \<and> (\<forall>i. Suc i < length chunks \<longrightarrow> fst (chunks ! Suc i) = snd (chunks ! i))
    \<and> (\<forall>i<length chunks. fst (chunks ! i) \<le> snd (chunks ! i) \<and> snd (chunks ! i) \<le> length data)
    \<and> (\<forall>i<length chunks. \<forall>b\<in>{fst (chunks ! i), snd (chunks ! i)}.
          b \<noteq> 0 \<and> b \<noteq> length data \<longrightarrow> data ! (b - 1) = CHR 0x0A)
    \<and> (\<forall>fileSize cs. calculateChunks data fileSize W = Inr cs
          \<longrightarrow> snd (cs ! (nat W - 1)) = fileSize)"
proof -
  define n where "n = nat W"
  define S where "S = length data"
  from assms have n: "0 < n"
    by (simp add: n_def)
  from calculateChunks_loop_props [of 0 data "S div n" n] obtain cs where cs:
    "calculateChunks_loop data S (S div n) n 0 = Inr cs" "length cs = n"
    "contiguous_from 0 cs" "\<forall>c\<in>set cs. snd c \<le> S \<and> line_aligned data (snd c)"
    by (auto simp: S_def)
  define chunks where "chunks = cs[n - 1 := (fst (cs ! (n - 1)), S)]"
  from assms cs(1) have run: "calculateChunks data (length data) W = Inr chunks"
    by (simp add: calculateChunks_def Let_def chunks_def n_def S_def)
  have len: "length chunks = n"
    by (simp add: chunks_def cs(2))
  from cs n have ne: "cs \<noteq> []"
    by auto
  from cs(4) have "\<forall>c\<in>set cs. snd c \<le> S"
    by simp
  from contiguous_from_force_last [OF cs(3) ne this] cs(2)
  have "contiguous_from 0 chunks"
    by (simp add: chunks_def)
  from contiguous_from_nth [OF this] len n
  have first: "fst (chunks ! 0) = 0"
    and next_start: "\<forall>i. Suc i < length chunks \<longrightarrow> fst (chunks ! Suc i) = snd (chunks ! i)"
    and ordered: "\<forall>i<length chunks. fst (chunks ! i) \<le> snd (chunks ! i)"
    by auto
  from n cs(2) have last: "snd (chunks ! (n - 1)) = S"
    by (simp add: chunks_def)
  have end_ok: "snd (chunks ! i) \<le> S \<and> line_aligned data (snd (chunks ! i))"
    if "i < n" for i
  proof (cases "i = n - 1")
    case True
    with last show ?thesis
      by (simp add: line_aligned_def S_def)
  next
    case False
    with that cs(2) have "chunks ! i = cs ! i" "cs ! i \<in> set cs"
      by (simp_all add: chunks_def)
    with cs(4) show ?thesis
      by simp
  qed
  have start_ok: "line_aligned data (fst (chunks ! i))" if "i < n" for i
  proof (cases i)
    case 0
    with first show ?thesis
      by (simp add: line_aligned_def)
  next
    case (Suc j)
    with that len next_start have "fst (chunks ! i) = snd (chunks ! j)" "j < n"
      by simp_all
    with end_ok [of j] show ?thesis
      by simp
  qed
  have aligned: "\<forall>i<length chunks. \<forall>b\<in>{fst (chunks ! i), snd (chunks ! i)}.
      b \<noteq> 0 \<and> b \<noteq> length data \<longrightarrow> data ! (b - 1) = CHR 0x0A"
  proof (intro allI impI ballI)
    fix i b
    assume i: "i < length chunks" and b: "b \<in> {fst (chunks ! i), snd (chunks ! i)}"
      and nz: "b \<noteq> 0 \<and> b \<noteq> length data"
    from i len start_ok [of i] end_ok [of i] b have "line_aligned data b"
      by auto
    with nz show "data ! (b - 1) = CHR 0x0A"
      by (simp add: line_aligned_def)
  qed
  have bounds: "\<forall>i<length chunks. fst (chunks ! i) \<le> snd (chunks ! i) \<and> snd (chunks ! i) \<le> length data"
    using ordered end_ok len by (simp add: S_def)
  have forced: "\<forall>fileSize cs. calculateChunks data fileSize W = Inr cs
      \<longrightarrow> snd (cs ! (nat W - 1)) = fileSize"
    using calculateChunks_last_end by blast
  from run len first last next_start bounds aligned forced show ?thesis
    unfolding n_def S_def by blast
qed

theorem calculateChunks_partition_witness:
  "\<exists>chunks.
     calculateChunks ''stationA;10.00\<newline>stationB;20.00\<newline>stationA;30.00\<newline>stationC;-1.00\<newline>''
       (length ''stationA;10.00\<newline>stationB;20.00\<newline>stationA;30.00\<newline>stationC;-1.00\<newline>'') 3
       = Inr chunks
     \<and> chunks = [(0, 30), (30, 60), (60, 60)]
     \<and> length chunks = 3
     \<and> fst (chunks ! 0) = 0
     \<and> snd (chunks ! 2) = 60
     \<and> ''stationA;10.00\<newline>stationB;20.00\<newline>stationA;30.00\<newline>stationC;-1.00\<newline>'' ! (snd (chunks ! 0) - 1) = CHR 0x0A"
proof -
  define data where
    "data = ''stationA;10.00\<newline>stationB;20.00\<newline>stationA;30.00\<newline>stationC;-1.00\<newline>''"
  have len: "length data = 60"
    by (simp add: data_def)
  have W: "(1::int) \<le> 3"
    by simp
  from calculateChunks_partition [OF W, of data] obtain chunks where c:
    "calculateChunks data (length data) 3 = Inr chunks" "length chunks = nat 3"
    "fst (chunks ! 0) = 0" "snd (chunks ! (nat 3 - 1)) = length data"
    "\<forall>i<length chunks. \<forall>b\<in>{fst (chunks ! i), snd (chunks ! i)}.
          b \<noteq> 0 \<and> b \<noteq> length data \<longrightarrow> data ! (b - 1) = CHR 0x0A"
    by blast
  have ev: "calculateChunks data 60 3 = Inr [(0, 30), (30, 60), (60, 60)]"
    unfolding data_def by code_simp
  with c(1) len have chunks: "chunks = [(0, 30), (30, 60), (60, 60)]"
    by simp
  from c(2) have "0 < length chunks"
    by simp
  with c(5) have "\<forall>b\<in>{fst (chunks ! 0), snd (chunks ! 0)}.
      b \<noteq> 0 \<and> b \<noteq> length data \<longrightarrow> data ! (b - 1) = CHR 0x0A"
    by blast
  with chunks len have "data ! (snd (chunks ! 0) - 1) = CHR 0x0A"
    by simp
  with c chunks len show ?thesis
    unfolding data_def by simp
qed

section \<open>Properties of the chunk scanner\<close>

lemma readName_takeWhile:
  "readNameUntilSemicolon s = takeWhile (\<lambda>c. c \<noteq> CHR '';'') s"
proof (cases "CHR '';'' \<in> set s")
  case True
  then show ?thesis
    by (simp add: readName_eq_linear linear_scan_def IndexByte_takeWhile
        takeWhile_eq_take [symmetric])
next
  case False
  then have "\<forall>x\<in>set s. x \<noteq> CHR '';''"
    by blast
  then have "takeWhile (\<lambda>c. c \<noteq> CHR '';'') s = s"
    by (rule takeWhile_eq_all_conv [THEN iffD2])
  moreover from False have "readNameUntilSemicolon s = s"
    by (simp add: readName_eq_linear linear_scan_def IndexByte_takeWhile)
  ultimately show ?thesis
    by (simp only:)
qed

lemma readName_no_semicolon: "CHR '';'' \<notin> set s \<Longrightarrow> readNameUntilSemicolon s = s"
  by (simp add: readName_eq_linear linear_scan_def IndexByte_None_iff [THEN iffD2])

lemma readName_key:
  assumes "CHR '';'' \<notin> set key"
  shows "readNameUntilSemicolon (key @ CHR '';'' # r) = key"
proof -
  from assms have "\<And>x. x \<in> set key \<Longrightarrow> x \<noteq> CHR '';''"
    by blast
  then have "takeWhile (\<lambda>c. c \<noteq> CHR '';'') (key @ CHR '';'' # r)
      = key @ takeWhile (\<lambda>c. c \<noteq> CHR '';'') (CHR '';'' # r)"
    by (rule takeWhile_append2)
  then show ?thesis
    by (simp add: readName_takeWhile)
qed

lemma length_substr: "j \<le> length data \<Longrightarrow> length (substr data i j) = j - i"
  by (simp add: substr_def)

lemma substr_drop: "substr data (i + k) j = drop k (substr data i j)"
  by (simp add: substr_def drop_take add.commute)

lemma substr_take: "i + k \<le> j \<Longrightarrow> substr data i (i + k) = take k (substr data i j)"
  by (simp add: substr_def min_def)

lemma substr_nth: "i + k < j \<Longrightarrow> j \<le> length data \<Longrightarrow> substr data i j ! k = data ! (i + k)"
  by (simp add: substr_def)

lemma scan_to_newline_eq:
  assumes "substr data i endp = v @ rest" "CHR 0x0A \<notin> set v" "rest = [] \<or> hd rest = CHR 0x0A"
    "endp \<le> length data" "i \<le> endp"
  shows "scan_to_newline data endp i = i + length v"
  using assms
proof (induction v arbitrary: i)
  case Nil
  show ?case
  proof (cases "i < endp")
    case True
    with Nil.prems have "rest \<noteq> []"
      using length_substr [of endp data i] by auto
    with Nil.prems have "hd rest = CHR 0x0A" "substr data i endp ! 0 = hd rest"
      by (simp_all add: hd_conv_nth)
    with True Nil.prems substr_nth [of i 0 endp data] have "data ! i = CHR 0x0A"
      by simp
    then show ?thesis
      by (subst scan_to_newline.simps) simp
  next
    case False
    then show ?thesis
      by (subst scan_to_newline.simps) simp
  qed
next
  case (Cons c v)
  from Cons.prems length_substr [of endp data i] have lt: "i < endp"
    by auto
  with Cons.prems substr_nth [of i 0 endp data] have "data ! i = c" "c \<noteq> CHR 0x0A"
    by auto
  with lt have "scan_to_newline data endp i = scan_to_newline data endp (i + 1)"
    by (subst scan_to_newline.simps) simp
  also have "\<dots> = (i + 1) + length v"
  proof (rule Cons.IH)
    have "substr data (i + 1) endp = drop 1 (substr data i endp)"
      by (rule substr_drop)
    with Cons.prems(1) show "substr data (i + 1) endp = v @ rest"
      by simp
  qed (use Cons.prems lt in auto)
  finally show ?case
    by simp
qed

lemma processChunk_loop_done: "\<not> i < endp \<Longrightarrow> processChunk_loop data endp i stats = Inr stats"
  by (subst processChunk_loop.simps) simp

lemma processChunk_loop_no_delimiter:
  assumes "endp \<le> length data" "CHR '';'' \<notin> set (substr data i endp)"
  shows "processChunk_loop data endp i stats = Inr stats"
proof (cases "i < endp")
  case True
  with assms show ?thesis
    by (subst processChunk_loop.simps) (simp add: Let_def readName_no_semicolon)
next
  case False
  then show ?thesis
    by (rule processChunk_loop_done)
qed

text \<open>
  Claim C6. When the bytes of a chunk from the scan position \<open>i\<close> to its end hold no
  semicolon, the scan of this chunk stops and returns the statistics gathered so far,
  with no error; a chunk that starts where it ends yields the empty map; and merging an
  empty map, which no order of iteration can make longer, leaves the final map as it is.
\<close>

theorem processChunk_stops_without_delimiter:
  "(endp \<le> length data \<and> CHR '';'' \<notin> set (substr data i endp)
      \<longrightarrow> processChunk_loop data endp i stats = Inr stats)
   \<and> processChunk data (p, p) = Inr []
   \<and> (rng [] = [] \<longrightarrow> merge_worker rng final [] = final)"
  by (simp add: processChunk_loop_no_delimiter processChunk_def processChunk_loop_done
      merge_worker_def)

lemma processChunk_loop_step:
  assumes "endp \<le> length data" "i < endp"
    and "substr data i endp = key @ CHR '';'' # v @ rest"
    and "CHR '';'' \<notin> set key" "CHR 0x0A \<notin> set v" "rest = [] \<or> hd rest = CHR 0x0A"
  shows "processChunk_loop data endp i stats =
    (case parseTemp v of
       None \<Rightarrow> Inl (MalformedNumber v)
     | Some temp \<Rightarrow>
         processChunk_loop data endp
           (i + length key + 1 + length v + (if rest = [] then 0 else 1))
           (record_temp stats key temp))"
proof -
  let ?start = "i + length key + 1"
  let ?j = "?start + length v"
  have name: "readNameUntilSemicolon (substr data i endp) = key"
    by (simp only: assms(3) readName_key [OF assms(4)])
  have len: "length (substr data i endp) = endp - i"
    using assms(1) by (rule length_substr)
  with assms(3) have total: "endp - i = length key + 1 + length v + length rest"
    by simp
  with assms(2) have se: "?start \<le> endp" and je: "?j \<le> endp"
    by simp_all
  have "substr data ?start endp = drop (length key + 1) (substr data i endp)"
    by (simp only: substr_drop add.assoc)
  with assms(3) have tail: "substr data ?start endp = v @ rest"
    by simp
  from scan_to_newline_eq [OF tail assms(5,6,1) se]
  have scan: "scan_to_newline data endp ?start = ?j" .
  from substr_take [of ?start "length v" endp data] je tail
  have val: "substr data ?start ?j = v"
    by simp
  have nl: "(?j < endp \<and> data ! ?j = CHR 0x0A) \<longleftrightarrow> rest \<noteq> []"
  proof (cases "rest = []")
    case True
    with total assms(2) have "?j = endp"
      by simp
    with True show ?thesis
      by simp
  next
    case False
    with total have lt: "?j < endp"
      by (cases rest) simp_all
    from substr_nth [of ?start "length v" endp data] lt assms(1) tail
    have "data ! ?j = (v @ rest) ! length v"
      by simp
    also from False assms(6) have "\<dots> = CHR 0x0A"
      by (simp add: hd_conv_nth nth_append)
    finally show ?thesis
      using lt False by simp
  qed
  from len total have neq: "length key \<noteq> length (substr data i endp)"
    by simp
  have next_i: "(if ?j < endp \<and> data ! ?j = CHR 0x0A then ?j + 1 else ?j)
      = i + length key + 1 + length v + (if rest = [] then 0 else 1)"
    using nl by simp
  from assms(1) have np: "\<not> length data < endp"
    by simp
  show ?thesis
    by (subst processChunk_loop.simps)
      (simp only: assms(2) np if_True if_False Let_def name neq scan val next_i)
qed

lemma keys_update_entry: "fst ` set (update_entry stats name s) = fst ` set stats"
  by (induction stats) (auto simp: update_entry_def)

lemma keys_record_temp: "fst ` set (record_temp stats name temp) = insert name (fst ` set stats)"
proof (cases "map_of stats name")
  case None
  then show ?thesis
    by (simp add: record_temp_def)
next
  case (Some s)
  then have "name \<in> fst ` set stats"
    by (force dest: map_of_SomeD)
  with Some show ?thesis
    by (auto simp: record_temp_def keys_update_entry)
qed

lemma processChunk_loop_keys:
  "processChunk_loop data endp i stats = Inr m \<Longrightarrow> fst ` set stats \<subseteq> fst ` set m"
proof (induction data endp i stats arbitrary: m rule: processChunk_loop.induct)
  case (1 data endp i stats)
  show ?case
  proof (cases "i < endp \<and> \<not> length data < endp
      \<and> length (readNameUntilSemicolon (substr data i endp)) \<noteq> length (substr data i endp)")
    case False
    with "1.prems" have "m = stats"
      by (subst (asm) processChunk_loop.simps) (auto simp: Let_def split: if_splits)
    then show ?thesis
      by simp
  next
    case True
    define name where "name = readNameUntilSemicolon (substr data i endp)"
    define start where "start = i + length name + 1"
    define j where "j = scan_to_newline data endp start"
    from True have c: "(i < endp) = True" "(length data < endp) = False"
      "(length (readNameUntilSemicolon (substr data i endp)) = length (substr data i endp)) = False"
      by simp_all
    have eq: "processChunk_loop data endp i stats =
      (case parseTemp (substr data start j) of
         None \<Rightarrow> Inl (MalformedNumber (substr data start j))
       | Some temp \<Rightarrow>
           processChunk_loop data endp (if j < endp \<and> data ! j = CHR 0x0A then j + 1 else j)
             (record_temp stats name temp))"
      unfolding name_def start_def j_def
      by (subst processChunk_loop.simps) (simp only: c if_True if_False Let_def)
    with "1.prems" obtain temp where temp: "parseTemp (substr data start j) = Some temp"
      and rec: "processChunk_loop data endp (if j < endp \<and> data ! j = CHR 0x0A then j + 1 else j)
          (record_temp stats name temp) = Inr m"
      by (cases "parseTemp (substr data start j)") simp_all
    from True have "fst ` set (record_temp stats name temp) \<subseteq> fst ` set m"
      by (intro "1.IH" [OF _ _ refl name_def _ start_def j_def temp rec]) (simp_all add: name_def)
    then show ?thesis
      by (auto simp: keys_record_temp)
  qed
qed

text \<open>
  Claim C10. The search for the delimiter runs to the end of the chunk, not of the line.
  When the bytes from the scan position are a line \<open>line\<close> without semicolon, its
  newline, further bytes \<open>later\<close> without semicolon, a semicolon, and a value \<open>v\<close>
  running to the next newline or to the end of the chunk, the scanner neither stops nor
  fails at the first line: it takes \<open>line\<close>, the newline and \<open>later\<close> together as one
  key and parses \<open>v\<close> as the value of that key. So it fails only when \<open>v\<close> does not
  parse, and when the scan of the chunk succeeds that key is in its result.
\<close>

theorem processChunk_key_spans_lines:
  assumes "endp \<le> length data" "i < endp"
    and "substr data i endp = line @ CHR 0x0A # later @ CHR '';'' # v @ rest"
    and "CHR '';'' \<notin> set line" "CHR '';'' \<notin> set later"
    and "CHR 0x0A \<notin> set v" "rest = [] \<or> hd rest = CHR 0x0A"
  shows "processChunk_loop data endp i stats =
      (case parseTemp v of
         None \<Rightarrow> Inl (MalformedNumber v)
       | Some temp \<Rightarrow>
           processChunk_loop data endp
             (i + length (line @ CHR 0x0A # later) + 1 + length v + (if rest = [] then 0 else 1))
             (record_temp stats (line @ CHR 0x0A # later) temp))
    \<and> (\<forall>m. processChunk_loop data endp i stats = Inr m
          \<longrightarrow> line @ CHR 0x0A # later \<in> fst ` set m \<and> parseTemp v \<noteq> None)"
proof -
  let ?key = "line @ CHR 0x0A # later"
  from assms(3) have s: "substr data i endp = ?key @ CHR '';'' # v @ rest"
    by simp
  from assms(4,5) have k: "CHR '';'' \<notin> set ?key"
    by simp
  note step = processChunk_loop_step [OF assms(1,2) s k assms(6,7), of stats]
  have "?key \<in> fst ` set m \<and> parseTemp v \<noteq> None"
    if m: "processChunk_loop data endp i stats = Inr m" for m
  proof (cases "parseTemp v")
    case None
    with step m show ?thesis
      by simp
  next
    case (Some temp)
    with step m have "processChunk_loop data endp
        (i + length ?key + 1 + length v + (if rest = [] then 0 else 1))
        (record_temp stats ?key temp) = Inr m"
      by simp
    from processChunk_loop_keys [OF this] Some show ?thesis
      by (auto simp: keys_record_temp)
  qed
  with step show ?thesis
    by blast
qed

theorem processChunk_key_spans_lines_witness:
  "processChunk ''abc\<newline>stationA;10.00\<newline>'' (0, 19)
     = Inr [(''abc\<newline>stationA'',
            \<lparr>Count = 1, Min_v = f64_of_int 10, Max_v = f64_of_int 10,
               Sum_v = f64_of_int 10\<rparr>)]"
proof -
  define data where "data = ''abc\<newline>stationA;10.00\<newline>''"
  have a: "19 \<le> length data" "(0::nat) < 19"
    by (simp_all add: data_def)
  have b: "substr data 0 19 = ''abc'' @ CHR 0x0A # ''stationA'' @ CHR '';'' # ''10.00'' @ ''\<newline>''"
    by (simp add: data_def substr_def)
  have c: "CHR '';'' \<notin> set ''abc''" "CHR '';'' \<notin> set ''stationA''" "CHR 0x0A \<notin> set ''10.00''"
    "''\<newline>'' = [] \<or> hd ''\<newline>'' = CHR 0x0A"
    by simp_all
  have p: "parseTemp ''10.00'' = Some (f64_of_int 10)"
    by code_simp
  have n: "0 + length ''abc\<newline>stationA'' + 1 + length ''10.00''
      + (if ''\<newline>'' = [] then 0 else 1) = (19::nat)"
    by simp
  have k: "''abc'' @ CHR 0x0A # ''stationA'' = ''abc\<newline>stationA''"
    by simp
  from processChunk_key_spans_lines [OF a b c, of "[]", THEN conjunct1]
  have "processChunk_loop data 19 0 [] =
      processChunk_loop data 19 19 (record_temp [] ''abc\<newline>stationA'' (f64_of_int 10))"
    by (simp only: p option.case n k)
  also have "\<dots> = Inr (record_temp [] ''abc\<newline>stationA'' (f64_of_int 10))"
    by (rule processChunk_loop_done) simp
  finally show ?thesis
    by (simp add: processChunk_def data_def record_temp_def)
qed

theorem processChunk_stops_without_delimiter_witness:
  "processChunk ''stationA;10.00\<newline>stationB'' (0, 23)
     = Inr [(''stationA'',
            \<lparr>Count = 1, Min_v = f64_of_int 10, Max_v = f64_of_int 10,
               Sum_v = f64_of_int 10\<rparr>)]
   \<and> merge_worker (\<lambda>m. m)
       [(''stationA'',
         \<lparr>Count = 1, Min_v = f64_of_int 10, Max_v = f64_of_int 10,
            Sum_v = f64_of_int 10\<rparr>)] []
     = [(''stationA'',
         \<lparr>Count = 1, Min_v = f64_of_int 10, Max_v = f64_of_int 10,
            Sum_v = f64_of_int 10\<rparr>)]"
proof -
  define data where "data = ''stationA;10.00\<newline>stationB''"
  define A where "A = [(''stationA'',
      \<lparr>Count = 1, Min_v = f64_of_int 10, Max_v = f64_of_int 10, Sum_v = f64_of_int 10\<rparr>)]"
  have a: "23 \<le> length data" "(0::nat) < 23"
    by (simp_all add: data_def)
  have b: "substr data 0 23 = ''stationA'' @ CHR '';'' # ''10.00'' @ ''\<newline>stationB''"
    by (simp add: data_def substr_def)
  have c: "CHR '';'' \<notin> set ''stationA''" "CHR 0x0A \<notin> set ''10.00''"
    "''\<newline>stationB'' = [] \<or> hd ''\<newline>stationB'' = CHR 0x0A"
    by simp_all
  have p: "parseTemp ''10.00'' = Some (f64_of_int 10)"
    by code_simp
  have n: "0 + length ''stationA'' + 1 + length ''10.00''
      + (if ''\<newline>stationB'' = [] then 0 else 1) = (15::nat)"
    by simp
  have r: "record_temp [] ''stationA'' (f64_of_int 10) = A"
    by (simp add: record_temp_def A_def)
  have "processChunk_loop data 23 0 [] = processChunk_loop data 23 15 A"
    using processChunk_loop_step [OF a b c, of "[]"]
    by (simp only: p option.case n r)
  also have "\<dots> = Inr A"
  proof -
    have "23 \<le> length data \<and> CHR '';'' \<notin> set (substr data 15 23)"
      by (simp add: data_def substr_def)
    with processChunk_stops_without_delimiter [of 23 data 15 A, THEN conjunct1]
    show ?thesis
      by (rule mp)
  qed
  finally have 1: "processChunk data (0, 23) = Inr A"
    by (simp add: processChunk_def)
  have "(\<lambda>m. m) ([] :: StationMap) = []"
    by simp
  with processChunk_stops_without_delimiter [of 0 "[]" 0 "[]" 0 "\<lambda>m. m" A,
      THEN conjunct2, THEN conjunct2]
  have 2: "merge_worker (\<lambda>m. m) A [] = A"
    by (rule mp)
  from 1 2 show ?thesis
    unfolding data_def A_def by (rule conjI)
qed

section \<open>The pipeline on concrete files\<close>

text \<open>
  Claim C1 says that the final map is the same for any two worker counts. On the four
  lines of the specification's scenario, one worker yields for \<^verbatim>\<open>stationA\<close> the count 2,
  minimum 10, maximum 30 and sum 40; three workers put the two \<^verbatim>\<open>stationA\<close> lines into
  different chunks, the merge keeps the entry of the first chunk and drops the update
  (see \<open>merge_entry\<close>), and the final map holds count 1, minimum, maximum and sum 10.
\<close>

theorem finalStats_differs_between_worker_counts:
  "finalStats [] (\<lambda>k m. m)
     ''stationA;10.00\<newline>stationB;20.00\<newline>stationA;30.00\<newline>stationC;-1.00\<newline>'' 1
   = Inr [(''stationA'',
           \<lparr>Count = 2, Min_v = f64_of_int 10, Max_v = f64_of_int 30,
              Sum_v = f64_of_int 40\<rparr>),
          (''stationB'',
           \<lparr>Count = 1, Min_v = f64_of_int 20, Max_v = f64_of_int 20,
              Sum_v = f64_of_int 20\<rparr>),
          (''stationC'',
           \<lparr>Count = 1, Min_v = f64_of_int (- 1), Max_v = f64_of_int (- 1),
              Sum_v = f64_of_int (- 1)\<rparr>)]
   \<and> finalStats [] (\<lambda>k m. m)
     ''stationA;10.00\<newline>stationB;20.00\<newline>stationA;30.00\<newline>stationC;-1.00\<newline>'' 3
   = Inr [(''stationA'',
           \<lparr>Count = 1, Min_v = f64_of_int 10, Max_v = f64_of_int 10,
              Sum_v = f64_of_int 10\<rparr>),
          (''stationB'',
           \<lparr>Count = 1, Min_v = f64_of_int 20, Max_v = f64_of_int 20,
              Sum_v = f64_of_int 20\<rparr>),
          (''stationC'',
           \<lparr>Count = 1, Min_v = f64_of_int (- 1), Max_v = f64_of_int (- 1),
              Sum_v = f64_of_int (- 1)\<rparr>)]"
  by code_simp

text \<open>
  Claim C5 says that the scenario renders the same line for every worker count. With one
  worker it does; with three workers the rendering shows \<^verbatim>\<open>stationA=10.00/10.00/10.00\<close>
  where the claim expects \<^verbatim>\<open>stationA=10.00/20.00/30.00\<close>, by the dropped update of the
  merge.
\<close>

theorem MustRun_three_workers_output:
  "MustRun [] (\<lambda>k m. m)
     ''stationA;10.00\<newline>stationB;20.00\<newline>stationA;30.00\<newline>stationC;-1.00\<newline>'' 1
   = Inr ''{stationA=10.00/20.00/30.00, stationB=20.00/20.00/20.00, stationC=-1.00/-1.00/-1.00}\<newline>''
   \<and> MustRun [] (\<lambda>k m. m)
     ''stationA;10.00\<newline>stationB;20.00\<newline>stationA;30.00\<newline>stationC;-1.00\<newline>'' 3
   = Inr ''{stationA=10.00/10.00/10.00, stationB=20.00/20.00/20.00, stationC=-1.00/-1.00/-1.00}\<newline>''"
  by code_simp

text \<open>
  Claim C4 says that any value outside the grammar makes the whole run fail. The value
  \<^verbatim>\<open>NaN\<close> does, with an error that carries the raw text; the value \<^verbatim>\<open>1.234\<close> is
  outside the grammar too, \<^verbatim>\<open>parseTemp\<close> accepts it as 1.23, and the run succeeds and
  prints a line.
\<close>

theorem MustRun_accepts_malformed_value:
  "\<not> fixed_decimal ''1.234''
   \<and> MustRun [] (\<lambda>k m. m) ''stationA;1.234\<newline>stationB;20.00\<newline>'' 1
     = Inr ''{stationA=1.23/1.23/1.23, stationB=20.00/20.00/20.00}\<newline>''
   \<and> MustRun [] (\<lambda>k m. m) ''stationA;NaN\<newline>stationB;20.00\<newline>'' 1
     = Inl (MalformedNumber ''NaN'')"
  by code_simp

section \<open>Determinism of the run\<close>

text \<open>
  Two runs on the same bytes with the same worker count can differ in the order in which
  the workers finish (\<open>sched\<close>) and in the order in which each \<^verbatim>\<open>range\<close> loop visits the
  entries of its map (\<open>rng\<close>, a permutation of the entries for every loop). The lemmas
  below show that neither reaches
  the output: every worker's map has distinct keys, the merge visits the workers in index
  order and its result, as a map, does not depend on the order of the entries, and the
  formatter sorts the keys.
\<close>

lemma map_fst_update_entry: "map fst (update_entry stats name s) = map fst stats"
  by (induction stats) (auto simp: update_entry_def)

lemma distinct_record_temp:
  assumes "distinct (map fst stats)"
  shows "distinct (map fst (record_temp stats name temp))"
proof (cases "map_of stats name")
  case None
  then have "name \<notin> fst ` set stats"
    by (simp add: map_of_eq_None_iff)
  with None assms show ?thesis
    by (simp add: record_temp_def)
next
  case (Some s)
  with assms show ?thesis
    by (simp add: record_temp_def map_fst_update_entry)
qed

lemma processChunk_loop_invariant:
  assumes "processChunk_loop data endp i stats = Inr m" "P stats"
    and step: "\<And>s name temp. P s \<Longrightarrow> P (record_temp s name temp)"
  shows "P m"
  using assms(1,2)
proof (induction data endp i stats arbitrary: m rule: processChunk_loop.induct)
  case (1 data endp i stats)
  show ?case
  proof (cases "i < endp \<and> \<not> length data < endp
      \<and> length (readNameUntilSemicolon (substr data i endp)) \<noteq> length (substr data i endp)")
    case False
    with "1.prems"(1) have "m = stats"
      by (subst (asm) processChunk_loop.simps) (auto simp: Let_def split: if_splits)
    with "1.prems"(2) show ?thesis
      by simp
  next
    case True
    define name where "name = readNameUntilSemicolon (substr data i endp)"
    define start where "start = i + length name + 1"
    define j where "j = scan_to_newline data endp start"
    from True have c: "(i < endp) = True" "(length data < endp) = False"
      "(length (readNameUntilSemicolon (substr data i endp)) = length (substr data i endp)) = False"
      by simp_all
    have eq: "processChunk_loop data endp i stats =
      (case parseTemp (substr data start j) of
         None \<Rightarrow> Inl (MalformedNumber (substr data start j))
       | Some temp \<Rightarrow>
           processChunk_loop data endp (if j < endp \<and> data ! j = CHR 0x0A then j + 1 else j)
             (record_temp stats name temp))"
      unfolding name_def start_def j_def
      by (subst processChunk_loop.simps) (simp only: c if_True if_False Let_def)
    with "1.prems"(1) obtain temp where temp: "parseTemp (substr data start j) = Some temp"
      and rec: "processChunk_loop data endp (if j < endp \<and> data ! j = CHR 0x0A then j + 1 else j)
          (record_temp stats name temp) = Inr m"
      by (cases "parseTemp (substr data start j)") simp_all
    from True show ?thesis
      by (intro "1.IH" [OF _ _ refl name_def _ start_def j_def temp rec] step "1.prems"(2))
        (simp_all add: name_def)
  qed
qed

lemma processChunk_distinct: "processChunk data c = Inr m \<Longrightarrow> distinct (map fst m)"
  unfolding processChunk_def
  by (erule processChunk_loop_invariant) (simp_all add: distinct_record_temp)

lemma map_of_merge_entry:
  "map_of (merge_entry fs (k, v)) = (map_of fs)(k := (case map_of fs k of None \<Rightarrow> Some v | Some w \<Rightarrow> Some w))"
  by (auto simp: merge_entry_def Let_def map_of_append map_add_def fun_eq_iff split: option.splits)

lemma distinct_merge_entry:
  "distinct (map fst fs) \<Longrightarrow> distinct (map fst (merge_entry fs e))"
  by (cases e) (auto simp: merge_entry_def Let_def map_of_eq_None_iff split: option.splits)

lemma map_of_foldl_merge:
  "map_of (foldl merge_entry fs xs) = map_of xs ++ map_of fs"
proof (induction xs arbitrary: fs)
  case Nil
  then show ?case by simp
next
  case (Cons e xs)
  obtain k v where e: "e = (k, v)"
    by (cases e)
  have "map_of (foldl merge_entry fs (e # xs)) = map_of xs ++ map_of (merge_entry fs (k, v))"
    by (simp add: Cons.IH e)
  also have "\<dots> = map_of (e # xs) ++ map_of fs"
    by (auto simp: map_of_merge_entry e map_add_def fun_eq_iff split: option.splits)
  finally show ?case .
qed

lemma distinct_foldl_merge:
  "distinct (map fst fs) \<Longrightarrow> distinct (map fst (foldl merge_entry fs xs))"
  by (induction xs arbitrary: fs) (simp_all add: distinct_merge_entry)

lemma map_of_permutation:
  assumes "mset ys = mset xs" "distinct (map fst xs)"
  shows "map_of ys = map_of xs"
proof -
  from assms(1) have "mset (map fst ys) = mset (map fst xs)"
    by simp
  from mset_eq_imp_distinct_iff [OF this] assms(2) have "distinct (map fst ys)"
    by simp
  moreover from assms(1) have "set ys = set xs"
    by (rule mset_eq_setD)
  ultimately show ?thesis
    using assms(2) by (simp add: map_of_inject_set)
qed

lemma map_of_merge_worker:
  assumes "mset (rng m) = mset m" "distinct (map fst m)"
  shows "map_of (merge_worker rng fs m) = map_of m ++ map_of fs"
  by (simp add: merge_worker_def map_of_foldl_merge map_of_permutation [OF assms])

lemma distinct_merge_worker:
  "distinct (map fst fs) \<Longrightarrow> distinct (map fst (merge_worker rng fs m))"
  by (simp add: merge_worker_def distinct_foldl_merge)

lemma merge_results_order_free:
  assumes "\<forall>k m. mset (rng1 k m) = mset m" "\<forall>k m. mset (rng2 k m) = mset m"
    and "\<forall>(i, m)\<in>set ims. distinct (map fst m)"
    and "map_of fs1 = map_of fs2" "distinct (map fst fs1)" "distinct (map fst fs2)"
  shows "map_of (foldl (\<lambda>fs (i, m). merge_worker (rng1 i) fs m) fs1 ims)
      = map_of (foldl (\<lambda>fs (i, m). merge_worker (rng2 i) fs m) fs2 ims)
    \<and> distinct (map fst (foldl (\<lambda>fs (i, m). merge_worker (rng1 i) fs m) fs1 ims))
    \<and> distinct (map fst (foldl (\<lambda>fs (i, m). merge_worker (rng2 i) fs m) fs2 ims))"
  using assms(3-)
proof (induction ims arbitrary: fs1 fs2)
  case Nil
  then show ?case by simp
next
  case (Cons im ims)
  obtain i m where im: "im = (i, m)"
    by (cases im)
  from Cons.prems im have d: "distinct (map fst m)"
    by simp
  from assms(1,2) have p: "mset (rng1 i m) = mset m" "mset (rng2 i m) = mset m"
    by simp_all
  have "map_of (merge_worker (rng1 i) fs1 m) = map_of (merge_worker (rng2 i) fs2 m)"
    using p d Cons.prems(2) by (simp add: map_of_merge_worker)
  moreover have "distinct (map fst (merge_worker (rng1 i) fs1 m))"
    "distinct (map fst (merge_worker (rng2 i) fs2 m))"
    using Cons.prems by (simp_all add: distinct_merge_worker)
  moreover from Cons.prems have "\<forall>(i, m)\<in>set ims. distinct (map fst m)"
    by simp
  ultimately show ?case
    using Cons.IH im by simp
qed

lemma errg_Wait_None_iff: "errg_Wait sched rs = None \<longleftrightarrow> (\<forall>r\<in>set rs. \<not> isl r)"
proof -
  let ?xs = "map (\<lambda>i. rs ! i) (filter (\<lambda>i. i < length rs) sched) @ rs"
  have "set (map (\<lambda>i. rs ! i) (filter (\<lambda>i. i < length rs) sched)) \<subseteq> set rs"
    by (auto simp: subset_iff)
  then have sub: "set ?xs = set rs"
    by (simp add: Un_absorb1)
  show ?thesis
  proof (cases "List.find isl ?xs")
    case None
    with find_None_iff [of isl ?xs] have "\<not> (\<exists>x. x \<in> set ?xs \<and> isl x)"
      by blast
    with sub have "\<forall>r\<in>set rs. \<not> isl r"
      by blast
    with None show ?thesis
      by (simp add: errg_Wait_def)
  next
    case (Some r)
    then obtain i where "i < length ?xs" "isl (?xs ! i)" "r = ?xs ! i"
      unfolding find_Some_iff by blast
    then have r: "isl r" "r \<in> set ?xs"
      using nth_mem [of i ?xs] by simp_all
    then obtain e where "r = Inl e"
      by (cases r) auto
    with Some have "errg_Wait sched rs \<noteq> None"
      by (simp add: errg_Wait_def)
    with r sub show ?thesis
      by blast
  qed
qed

lemma print_entry_cong:
  assumes "map_of s1 = map_of s2"
  shows "print_entry s1 name = print_entry s2 name"
  unfolding print_entry_def by (simp only: assms)

lemma print_entries_cong:
  assumes "map_of s1 = map_of s2"
  shows "print_entries s1 names = print_entries s2 names"
proof (induction names)
  case Nil
  show ?case by simp
next
  case (Cons name rest)
  with print_entry_cong [OF assms, of name] show ?case
    by (cases rest) (simp_all only: print_entries.simps)
qed

lemma sort_permutation: "mset ys = mset xs \<Longrightarrow> sort ys = sort (xs :: string list)"
  by (rule properties_for_sort) simp_all

lemma printResults_order_free:
  assumes "mset (rng1 s1) = mset s1" "mset (rng2 s2) = mset s2"
    and "map_of s1 = map_of s2" "distinct (map fst s1)" "distinct (map fst s2)"
  shows "printResults rng1 s1 = printResults rng2 s2"
proof -
  from assms(3) have "dom (map_of s1) = dom (map_of s2)"
    by simp
  then have "set (map fst s1) = set (map fst s2)"
    by (simp add: dom_map_of_conv_image_fst)
  from set_eq_iff_mset_eq_distinct [OF assms(4,5), THEN iffD1, OF this]
  have "mset (map fst s1) = mset (map fst s2)" .
  moreover from assms(1,2) have "mset (map fst (rng1 s1)) = mset (map fst s1)"
    "mset (map fst (rng2 s2)) = mset (map fst s2)"
    by simp_all
  ultimately have "mset (map fst (rng1 s1)) = mset (map fst (rng2 s2))"
    by (simp only:)
  then have "sort (map fst (rng1 s1)) = sort (map fst (rng2 s2))"
    by (rule sort_permutation)
  with print_entries_cong [OF assms(3)] show ?thesis
    by (simp add: printResults_def)
qed


lemma finalStats_cases:
  obtains (planner_fails) e where "calculateChunks data (length data) W = Inl e"
      "\<And>sched rng. finalStats sched rng data W = Inl e"
  | (worker_fails) "\<And>sched rng. isl (finalStats sched rng data W)"
  | (succeeds) ms where "\<forall>m\<in>set ms. distinct (map fst m)"
      "\<And>sched rng. finalStats sched rng data W = Inr (merge_results rng ms)"
proof (cases "calculateChunks data (length data) W")
  case (Inl e)
  then have "\<And>sched rng. finalStats sched rng data W = Inl e"
    by (simp add: finalStats_def)
  with Inl show ?thesis
    by (rule planner_fails)
next
  case (Inr chunks)
  define results where "results = map (processChunk data) chunks"
  show ?thesis
  proof (cases "\<forall>r\<in>set results. \<not> isl r")
    case False
    then have ne: "errg_Wait sched results \<noteq> None" for sched
      by (simp add: errg_Wait_None_iff)
    have "isl (finalStats sched rng data W)" for sched rng
    proof (cases "errg_Wait sched results")
      case None
      with ne [of sched] show ?thesis
        by simp
    next
      case (Some e)
      with Inr show ?thesis
        by (simp add: finalStats_def Let_def results_def [symmetric])
    qed
    then show ?thesis
      by (rule worker_fails)
  next
    case True
    then have none: "errg_Wait sched results = None" for sched
      by (simp add: errg_Wait_None_iff)
    have run: "finalStats sched rng data W = Inr (merge_results rng (map worker_result results))"
      for sched rng
      using Inr none by (simp add: finalStats_def Let_def results_def [symmetric])
    have "distinct (map fst m)" if "m \<in> set (map worker_result results)" for m
    proof -
      from that obtain c where c: "m = worker_result (processChunk data c)"
        by (auto simp: results_def)
      show ?thesis
      proof (cases "processChunk data c")
        case (Inl e)
        with c show ?thesis
          by (simp add: worker_result_def)
      next
        case (Inr m')
        with c processChunk_distinct [OF Inr] show ?thesis
          by (simp add: worker_result_def)
      qed
    qed
    then have "\<forall>m\<in>set (map worker_result results). distinct (map fst m)"
      by blast
    then show ?thesis
      using run by (rule succeeds)
  qed
qed

text \<open>
  Claim C9. Whatever the order in which the workers finish and whatever the orders in
  which the maps are iterated, two runs on the same bytes with the same worker count
  write the same bytes to \<^verbatim>\<open>stdout\<close>, both succeed or both fail, and when they succeed
  their final maps hold the same statistics for every key.
\<close>

theorem MustRun_output_deterministic:
  assumes "\<forall>k m. mset (rng1 k m) = mset m" "\<forall>k m. mset (rng2 k m) = mset m"
  shows "stdout_of (MustRun sched1 rng1 data W) = stdout_of (MustRun sched2 rng2 data W)
    \<and> isl (MustRun sched1 rng1 data W) = isl (MustRun sched2 rng2 data W)
    \<and> (\<forall>s1 s2. finalStats sched1 rng1 data W = Inr s1 \<and> finalStats sched2 rng2 data W = Inr s2
          \<longrightarrow> map_of s1 = map_of s2)"
proof (cases data W rule: finalStats_cases)
  case (planner_fails e)
  then show ?thesis
    by (simp add: MustRun_def stdout_of_def)
next
  case worker_fails
  from worker_fails [of sched1 rng1] worker_fails [of sched2 rng2] show ?thesis
    by (auto simp: MustRun_def stdout_of_def split: sum.splits)
next
  case (succeeds ms)
  have e: "map_of ([] :: StationMap) = map_of []" "distinct (map fst ([] :: StationMap))"
    by simp_all
  from succeeds(1) have "\<forall>(i, m)\<in>set (List.enumerate 0 ms). distinct (map fst m)"
    by (auto simp: in_set_enumerate_eq)
  from merge_results_order_free [OF assms this e(1) e(2) e(2)]
  have m: "map_of (merge_results rng1 ms) = map_of (merge_results rng2 ms)"
    and d: "distinct (map fst (merge_results rng1 ms))" "distinct (map fst (merge_results rng2 ms))"
    by (simp_all add: merge_results_def)
  from assms
  have "mset (rng1 (nat W) (merge_results rng1 ms)) = mset (merge_results rng1 ms)"
    "mset (rng2 (nat W) (merge_results rng2 ms)) = mset (merge_results rng2 ms)"
    by simp_all
  from printResults_order_free
    [of "rng1 (nat W)" "merge_results rng1 ms" "rng2 (nat W)" "merge_results rng2 ms",
      OF this m d]
  have "printResults (rng1 (nat W)) (merge_results rng1 ms)
      = printResults (rng2 (nat W)) (merge_results rng2 ms)" .
  with m succeeds(2) show ?thesis
    by (simp add: MustRun_def stdout_of_def)
qed

theorem MustRun_output_deterministic_witness:
  "(\<forall>k. \<forall>m :: StationMap. mset (if even (k :: nat) then rev m else m) = mset m)
   \<and> stdout_of (MustRun [] (\<lambda>k m. m)
         ''stationA;10.00\<newline>stationB;20.00\<newline>stationA;30.00\<newline>stationC;-1.00\<newline>'' 3)
     = stdout_of (MustRun [2, 1, 0] (\<lambda>k m. if even k then rev m else m)
         ''stationA;10.00\<newline>stationB;20.00\<newline>stationA;30.00\<newline>stationC;-1.00\<newline>'' 3)"
proof -
  have a: "\<forall>k :: nat. \<forall>m :: StationMap. mset ((\<lambda>k m. m) k m) = mset m"
    by simp
  have b: "\<forall>k. \<forall>m :: StationMap. mset (if even (k :: nat) then rev m else m) = mset m"
    by simp
  from MustRun_output_deterministic [OF a b, THEN conjunct1] b show ?thesis
    by (simp only: simp_thms)
qed

end
